theory Spec2Isabelle
  imports
    Main
    "HOL-Library.AList"
    "HOL-Library.Multiset"
    "HOL-Library.Sublist"
    "HOL-Library.Char_ord"
    "HOL-Library.List_Lexorder"
begin

section \<open>Strings and exceptions\<close>

text \<open>
  A Python \<open>str\<close> is modelled as a \<open>string\<close>: a list of characters with code points
  below 256. The exceptions of \<open>snakeoil/cli/arghparse.py\<close> are values of \<open>exc\<close>; a call
  that may raise returns a sum with \<open>Inl\<close> for the exception.
\<close>

datatype exc =
    TypeError string
  | ValueError string
  | AttributeError string
  | ArgumentError "string option" string
  | ArgumentTypeError string
  | SystemExit int string bool
  | OtherError string

text \<open>
  \<open>ArgumentError name message\<close> is \<open>argparse.ArgumentError\<close> with its argument name and
  message. \<open>SystemExit status message traceback\<close> is what \<open>parser.exit(status, message)\<close>
  raises after writing \<open>message\<close> to standard error; the flag records that
  \<open>traceback.print_exc()\<close> ran before. \<open>OtherError\<close> is any exception class that is
  none of the others nor derived from them.
\<close>

text \<open>\<open>str(err)\<close> for an exception built from one message.\<close>

fun str_exc :: "exc \<Rightarrow> string" where
  "str_exc (TypeError m) = m"
| "str_exc (ValueError m) = m"
| "str_exc (AttributeError m) = m"
| "str_exc (ArgumentError None m) = m"
| "str_exc (ArgumentError (Some name) m) = ''argument '' @ name @ '': '' @ m"
| "str_exc (ArgumentTypeError m) = m"
| "str_exc (SystemExit status m tb) = m"
| "str_exc (OtherError m) = m"

text \<open>\<open>sep.join(xs)\<close>.\<close>

fun join :: "string \<Rightarrow> string list \<Rightarrow> string" where
  "join sep [] = []"
| "join sep [x] = x"
| "join sep (x # y # ys) = x @ sep @ join sep (y # ys)"

text \<open>\<open>s.split(d)\<close> for a one-character delimiter: always at least one piece.\<close>

fun str_split :: "char \<Rightarrow> string \<Rightarrow> string list" where
  "str_split d [] = [[]]"
| "str_split d (c # cs) =
     (if c = d then [] # str_split d cs
      else (case str_split d cs of
              [] \<Rightarrow> [[c]]
            | w # ws \<Rightarrow> (c # w) # ws))"

text \<open>
  \<open>s.lower()\<close> on code points below 256: the ASCII capitals and the Latin-1 capitals
  (\<open>0xC0\<close> to \<open>0xDE\<close> without the multiplication sign \<open>0xD7\<close>) move up by 32.
\<close>

definition lower_char :: "char \<Rightarrow> char" where
  "lower_char c =
     (let n = (of_char c :: nat)
      in if (65 \<le> n \<and> n \<le> 90) \<or> (192 \<le> n \<and> n \<le> 222 \<and> n \<noteq> 215)
         then char_of (n + 32) else c)"

definition lower :: "string \<Rightarrow> string" where
  "lower s = map lower_char s"

section \<open>Comma-list actions\<close>

text \<open>
  The \<open>values\<close> handed to an action are one string or a sequence of strings
  (\<open>isinstance(values, str)\<close> decides).
\<close>

datatype arg_values = Str string | Seq "string list"

text \<open>The generator \<open>(x for x in value.split(',') if x)\<close>.\<close>

definition tokens :: "string \<Rightarrow> string list" where
  "tokens value = filter (\<lambda>x. x \<noteq> []) (str_split CHR '','' value)"




fun split_elements ::
  "string list \<Rightarrow> exc + (string list \<times> string list \<times> string list)" where
  "split_elements [] = Inr ([], [], [])"
| "split_elements (token # rest) =
     (if token = ''-'' \<or> token = ''+'' then Inl (ValueError ''sign without a token'')
      else (case split_elements rest of
              Inl e \<Rightarrow> Inl e
            | Inr (neg, neu, pos) \<Rightarrow>
                (case token of
                   [] \<Rightarrow> Inr (neg, token # neu, pos)
                 | c # t \<Rightarrow>
                     if c = CHR ''-'' then Inr (t # neg, neu, pos)
                     else if c = CHR ''+'' then Inr (neg, neu, t # pos)
                     else Inr (neg, token # neu, pos))))"



text \<open>\<open>CommaSeparatedElements.parse_values\<close>.\<close>

fun elements_loop ::
  "string list \<Rightarrow> string list \<Rightarrow> string list \<Rightarrow> string list \<Rightarrow>
   exc + (string list \<times> string list \<times> string list)" where
  "elements_loop disabled neutral enabled [] = Inr (disabled, neutral, enabled)"
| "elements_loop disabled neutral enabled (value # rest) =
     (case split_elements (tokens value) of
        Inl (ValueError m) \<Rightarrow> Inl (ArgumentTypeError m)
      | Inl e \<Rightarrow> Inl e
      | Inr (neg, neu, pos) \<Rightarrow>
          elements_loop (disabled @ neg) (neutral @ neu) (enabled @ pos) rest)"

fun CommaSeparatedElements_parse_values ::
  "arg_values \<Rightarrow> exc + (string list \<times> string list \<times> string list)" where
  "CommaSeparatedElements_parse_values (Str s) = elements_loop [] [] [] [s]"
| "CommaSeparatedElements_parse_values (Seq vs) = elements_loop [] [] [] vs"

text \<open>
  The input tokens of one call, in order: the non-empty comma pieces of every value.
  The sign of a token and the token without its sign.
\<close>

fun all_tokens :: "arg_values \<Rightarrow> string list" where
  "all_tokens (Str s) = tokens s"
| "all_tokens (Seq vs) = concat (map tokens vs)"

datatype sign = Disabled | Neutral | Enabled

fun sign_of :: "string \<Rightarrow> sign" where
  "sign_of [] = Neutral"
| "sign_of (c # t) =
     (if c = CHR ''-'' then Disabled else if c = CHR ''+'' then Enabled else Neutral)"

fun strip_sign :: "string \<Rightarrow> string" where
  "strip_sign [] = []"
| "strip_sign (c # t) = (if c = CHR ''-'' \<or> c = CHR ''+'' then t else c # t)"

section \<open>The boolean option converter\<close>

text \<open>
  \<open>StoreBool.boolean\<close>. The builtin \<open>repr\<close>, which formats \<open>%r\<close>, is a parameter.
\<close>

definition boolean :: "(string \<Rightarrow> string) \<Rightarrow> string \<Rightarrow> exc + bool" where
  "boolean repr value0 =
     (let value = lower value0
      in if value \<in> set [''y'', ''yes'', ''true''] then Inr True
         else if value \<in> set [''n'', ''no'', ''false''] then Inr False
         else Inl (ValueError (''value '' @ repr value @ '' must be [y|yes|true|n|no|false]'')))"

text \<open>\<open>repr\<close> of a string of printable characters without quotes or backslashes.\<close>

definition quote_repr :: "string \<Rightarrow> string" where
  "quote_repr s = [CHR 0x27] @ s @ [CHR 0x27]"

section \<open>The test double formatter\<close>

text \<open>
  The entries of a \<open>ListStream\<close>: a \<open>bytes\<close> chunk, a \<open>FormatterObject\<close> (\<open>Color\<close>,
  \<open>Reset\<close> or \<open>Bold\<close>), or any other object.
\<close>

datatype marker = Color string "string option" | Reset | Bold

datatype item = Bytes string | Marker marker | Other nat

fun is_bytes :: "item \<Rightarrow> bool" where
  "is_bytes (Bytes b) = True"
| "is_bytes x = False"

text \<open>
  \<open>ListStream.write\<close>: the loop over \<open>args\<close> with \<open>stringlist\<close> and \<open>objectlist\<close>, then
  the merge of the first new chunk into the last stored one.
\<close>

fun write_loop :: "item list \<Rightarrow> string list \<Rightarrow> item list \<Rightarrow> item list" where
  "write_loop [] stringlist objectlist = objectlist @ [Bytes (concat stringlist)]"
| "write_loop (Bytes b # args) stringlist objectlist =
     write_loop args (stringlist @ [b]) objectlist"
| "write_loop (arg # args) stringlist objectlist =
     write_loop args [] (objectlist @ [Bytes (concat stringlist)] @ [arg])"

fun merge_last :: "item list \<Rightarrow> item list \<Rightarrow> item list" where
  "merge_last self [] = self"
| "merge_last self (first # objectlist) =
     (if self \<noteq> [] \<and> is_bytes (last self) \<and> is_bytes first
      then (case (last self, first) of
              (Bytes a, Bytes b) \<Rightarrow> butlast self @ [Bytes (a @ b)] @ objectlist
            | other \<Rightarrow> self @ first # objectlist)
      else self @ first # objectlist)"

definition ListStream_write :: "item list \<Rightarrow> item list \<Rightarrow> item list" where
  "ListStream_write self args = merge_last self (write_loop args [] [])"

text \<open>A sequence of \<open>write\<close> calls on a stream, one argument tuple per call.\<close>

fun writes :: "item list \<Rightarrow> item list list \<Rightarrow> item list" where
  "writes self [] = self"
| "writes self (args # calls) = writes (ListStream_write self args) calls"

text \<open>
  \<open>FakeStreamFormatter.get_text_stream\<close>: \<open>b''.join\<close> raises a type error on an entry
  that is neither bytes nor a formatter object, and \<open>decode('ascii')\<close> fails on a byte
  above 127.
\<close>

datatype stream_error = JoinTypeError | UnicodeDecodeError

fun join_bytes :: "item list \<Rightarrow> stream_error + string" where
  "join_bytes [] = Inr []"
| "join_bytes (Bytes b # xs) =
     (case join_bytes xs of Inl e \<Rightarrow> Inl e | Inr r \<Rightarrow> Inr (b @ r))"
| "join_bytes (x # xs) = Inl JoinTypeError"

definition decode_ascii :: "string \<Rightarrow> stream_error + string" where
  "decode_ascii b =
     (if list_all (\<lambda>c. (of_char c :: nat) < 128) b then Inr b else Inl UnicodeDecodeError)"

fun is_marker :: "item \<Rightarrow> bool" where
  "is_marker (Marker m) = True"
| "is_marker x = False"

definition get_text_stream :: "item list \<Rightarrow> stream_error + string" where
  "get_text_stream stream =
     (case join_bytes (filter (\<lambda>x. \<not> is_marker x) stream) of
        Inl e \<Rightarrow> Inl e
      | Inr b \<Rightarrow> decode_ascii b)"

text \<open>No two neighbouring entries of a stream are both text chunks.\<close>

fun coalesced :: "item list \<Rightarrow> bool" where
  "coalesced (x # y # xs) = (\<not> (is_bytes x \<and> is_bytes y) \<and> coalesced (y # xs))"
| "coalesced xs = True"

text \<open>
  The shape every \<open>write\<close> leaves behind: the stream starts and ends with a text
  chunk and no two neighbours are text chunks.
\<close>

definition chunked :: "item list \<Rightarrow> bool" where
  "chunked xs \<longleftrightarrow> xs \<noteq> [] \<and> is_bytes (hd xs) \<and> is_bytes (last xs) \<and> coalesced xs"

section \<open>The namespace and delayed values\<close>

text \<open>
  A delayed value is an object of one of the classes \<open>DelayedValue\<close>,
  \<open>DelayedDefault\<close>, \<open>DelayedParse\<close> and \<open>OrderedParse\<close>, holding an invokable and
  an integer priority. The invokable is a Python callable, named here by a number and
  interpreted by a table of callables; the invokable \<open>partial(cls._wipe, attrs)\<close> that
  \<open>DelayedDefault.wipe(attrs, priority)\<close> builds is known, and has a constructor of its
  own.
\<close>

datatype delayed =
    DelayedValue nat int
  | DelayedDefault nat int
  | DelayedDefault_wipe "string list" int
  | DelayedParse nat int
  | OrderedParse nat int

fun priority :: "delayed \<Rightarrow> int" where
  "priority (DelayedValue i p) = p"
| "priority (DelayedDefault i p) = p"
| "priority (DelayedDefault_wipe attrs p) = p"
| "priority (DelayedParse i p) = p"
| "priority (OrderedParse i p) = p"

text \<open>\<open>isinstance(val, DelayedDefault)\<close>.\<close>

fun is_DelayedDefault :: "delayed \<Rightarrow> bool" where
  "is_DelayedDefault (DelayedDefault i p) = True"
| "is_DelayedDefault (DelayedDefault_wipe attrs p) = True"
| "is_DelayedDefault d = False"

text \<open>
  The values a namespace attribute can hold: \<open>None\<close>, a boolean, a string, a callable
  (by number), a delayed value, or any other object, which is not callable and of which
  only whether it is hashable matters.
\<close>

datatype val =
    NoneV
  | BoolV bool
  | StrV string
  | FuncV nat
  | DelayedV delayed
  | OtherV bool nat

text \<open>
  The namespace is its \<open>__dict__\<close>: an association list in insertion order.
  \<open>setattr\<close> is \<open>AList.update\<close> (in place for a known name, at the end for a new one).
\<close>

type_synonym namespace = "(string \<times> val) list"

text \<open>
  What a callable is applied to, besides its effect on the namespace: the namespace
  itself, the parser, or a string. A callable takes the namespace as it is and leaves a
  namespace and possibly an exception; what it returns is never used.
\<close>

datatype pyarg = ArgNamespace | ArgParser | ArgStr string

type_synonym callables = "nat \<Rightarrow> pyarg list \<Rightarrow> namespace \<Rightarrow> namespace \<times> exc option"

text \<open>\<open>delattr(namespace, name)\<close>: an \<open>AttributeError\<close> for a name that is not set.\<close>

definition delattr :: "namespace \<Rightarrow> string \<Rightarrow> namespace \<times> exc option" where
  "delattr namespace name =
     (case map_of namespace name of
        None \<Rightarrow> (namespace, Some (AttributeError name))
      | Some v \<Rightarrow> (AList.delete name namespace, None))"

text \<open>
  \<open>DelayedDefault._wipe\<close>: the loop over \<open>attrs\<close> and the final deletion of the
  triggering attribute swallow \<open>AttributeError\<close> only. \<open>attrs\<close> is the tuple that
  \<open>wipe\<close> makes of its argument (a single name becomes a one-element tuple).
\<close>

fun wipe_attrs :: "string list \<Rightarrow> namespace \<Rightarrow> namespace \<times> exc option" where
  "wipe_attrs [] namespace = (namespace, None)"
| "wipe_attrs (attr # attrs) namespace =
     (case delattr namespace attr of
        (ns', Some (AttributeError m)) \<Rightarrow> wipe_attrs attrs ns'
      | (ns', Some e) \<Rightarrow> (ns', Some e)
      | (ns', None) \<Rightarrow> wipe_attrs attrs ns')"

definition wipe :: "string list \<Rightarrow> namespace \<Rightarrow> string \<Rightarrow> namespace \<times> exc option" where
  "wipe attrs namespace triggering_attr =
     (case wipe_attrs attrs namespace of
        (ns', Some e) \<Rightarrow> (ns', Some e)
      | (ns', None) \<Rightarrow>
          (case delattr ns' triggering_attr of
             (ns'', Some (AttributeError m)) \<Rightarrow> (ns'', None)
           | r \<Rightarrow> r))"

text \<open>
  \<open>__call__(self, namespace, attr)\<close> of the four classes: \<open>DelayedValue\<close> and
  \<open>DelayedDefault\<close> call \<open>invokable(namespace, attr)\<close>, \<open>DelayedParse\<close> calls
  \<open>invokable()\<close>, \<open>OrderedParse\<close> calls \<open>invokable(namespace)\<close> and then deletes
  \<open>attr\<close>.
\<close>

fun call_delayed :: "callables \<Rightarrow> delayed \<Rightarrow> namespace \<Rightarrow> string \<Rightarrow> namespace \<times> exc option" where
  "call_delayed F (DelayedValue i p) namespace attr = F i [ArgNamespace, ArgStr attr] namespace"
| "call_delayed F (DelayedDefault i p) namespace attr = F i [ArgNamespace, ArgStr attr] namespace"
| "call_delayed F (DelayedDefault_wipe attrs p) namespace attr = wipe attrs namespace attr"
| "call_delayed F (DelayedParse i p) namespace attr = F i [] namespace"
| "call_delayed F (OrderedParse i p) namespace attr =
     (case F i [ArgNamespace] namespace of
        (ns', Some e) \<Rightarrow> (ns', Some e)
      | (ns', None) \<Rightarrow> delattr ns' attr)"

text \<open>
  The generators \<open>((attr, val) for attr, val in args.__dict__.items() if isinstance(val, C))\<close>
  and the loop over \<open>sorted(i, key=lambda val: val[1].priority)\<close>. The list is built
  before the first call, so every collected value is called, whatever the calls before
  it did to the namespace. The loop stops at the first exception and says under which
  attribute it was raised; it also reports the calls it made, in order.
\<close>

fun delayed_items :: "(delayed \<Rightarrow> bool) \<Rightarrow> namespace \<Rightarrow> (string \<times> delayed) list" where
  "delayed_items C [] = []"
| "delayed_items C ((attr, DelayedV d) # rest) =
     (if C d then (attr, d) # delayed_items C rest else delayed_items C rest)"
| "delayed_items C ((attr, v) # rest) = delayed_items C rest"

definition sorted_by_priority :: "(string \<times> delayed) list \<Rightarrow> (string \<times> delayed) list" where
  "sorted_by_priority i = sort_key (\<lambda>val. priority (snd val)) i"

fun run_delayed ::
  "callables \<Rightarrow> (string \<times> delayed) list \<Rightarrow> namespace \<Rightarrow>
   (string \<times> delayed) list \<times> namespace \<times> (string \<times> exc) option" where
  "run_delayed F [] namespace = ([], namespace, None)"
| "run_delayed F ((attr, functor) # rest) namespace =
     (case call_delayed F functor namespace attr of
        (ns', Some e) \<Rightarrow> ([(attr, functor)], ns', Some (attr, e))
      | (ns', None) \<Rightarrow>
          (case run_delayed F rest ns' of
             (calls, r) \<Rightarrow> ((attr, functor) # calls, r)))"

definition pass1 ::
  "callables \<Rightarrow> namespace \<Rightarrow> (string \<times> delayed) list \<times> namespace \<times> (string \<times> exc) option" where
  "pass1 F args = run_delayed F (sorted_by_priority (delayed_items is_DelayedDefault args)) args"

definition pass2 ::
  "callables \<Rightarrow> namespace \<Rightarrow> (string \<times> delayed) list \<times> namespace \<times> (string \<times> exc) option" where
  "pass2 F args = run_delayed F (sorted_by_priority (delayed_items (\<lambda>d. True) args)) args"

text \<open>
  \<open>getattr(args, name, None)\<close> through \<open>Namespace.__getattribute__\<close>: a delayed value
  found under the name is called and the name is read again; an \<open>AttributeError\<close>,
  from either read or from the call, gives the default.
\<close>

definition getattr_None :: "callables \<Rightarrow> namespace \<Rightarrow> string \<Rightarrow> namespace \<times> (exc + val)" where
  "getattr_None F namespace name =
     (case map_of namespace name of
        None \<Rightarrow> (namespace, Inr NoneV)
      | Some (DelayedV d) \<Rightarrow>
          (case call_delayed F d namespace name of
             (ns', Some (AttributeError m)) \<Rightarrow> (ns', Inr NoneV)
           | (ns', Some e) \<Rightarrow> (ns', Inl e)
           | (ns', None) \<Rightarrow>
               (case map_of ns' name of
                  None \<Rightarrow> (ns', Inr NoneV)
                | Some v \<Rightarrow> (ns', Inr v)))
      | Some v \<Rightarrow> (namespace, Inr v))"

text \<open>
  \<open>final_check(self, args)\<close> for whatever value was found. A delayed value is callable:
  its \<open>__call__\<close> then receives the parser as \<open>namespace\<close> and the namespace as
  \<open>attr\<close>, and \<open>delattr\<close> with a name that is not a string is a \<open>TypeError\<close>.
\<close>

fun call_value :: "callables \<Rightarrow> val \<Rightarrow> namespace \<Rightarrow> namespace \<times> exc option" where
  "call_value F (FuncV i) namespace = F i [ArgParser, ArgNamespace] namespace"
| "call_value F (DelayedV (DelayedValue i p)) namespace = F i [ArgParser, ArgNamespace] namespace"
| "call_value F (DelayedV (DelayedDefault i p)) namespace = F i [ArgParser, ArgNamespace] namespace"
| "call_value F (DelayedV (DelayedDefault_wipe attrs p)) namespace =
     (namespace, Some (TypeError ''attribute name must be string''))"
| "call_value F (DelayedV (DelayedParse i p)) namespace = F i [] namespace"
| "call_value F (DelayedV (OrderedParse i p)) namespace =
     (case F i [ArgParser] namespace of
        (ns', Some e) \<Rightarrow> (ns', Some e)
      | (ns', None) \<Rightarrow> (ns', Some (TypeError ''attribute name must be string'')))"
| "call_value F v namespace = (namespace, Some (TypeError ''object is not callable''))"

section \<open>The extended parser\<close>

text \<open>
  The methods of the standard library's parser (\<open>parse_known_args\<close> and the inherited
  \<open>_parse_known_args\<close>) are parameters of this type: from the argument strings and the
  namespace to the namespace and the strings left over, or an exception.
\<close>

type_synonym parse_fn = "string list \<Rightarrow> namespace \<Rightarrow> exc + (namespace \<times> string list)"

text \<open>
  What \<open>parse_args\<close> reads of a registered subcommand's parser: its \<open>prog\<close>, and the
  main function and final check bound to it (\<open>None\<close> when not bound).
\<close>

record subcommand =
  sub_prog :: string
  sub_main_func :: "val option"
  sub_final_check :: "val option"

text \<open>
  The fields of \<open>ArgumentParser\<close> that the modelled methods read: \<open>prog\<close>, \<open>debug\<close>,
  \<open>__default_subparser\<close>, whether \<open>__subparsers\<close> is set, the \<open>subparsers\<close> mapping
  (name to parser) and \<open>_parents\<close>, each parent by its \<open>_parse_known_args\<close>.
\<close>

record parser =
  prog :: string
  debug :: bool
  default_subparser :: "string option"
  has_subparsers :: bool
  subparsers :: "(string \<times> subcommand) list"
  parents :: "parse_fn list"

text \<open>
  \<open>ArgumentParser.error\<close>, with the default status 2: what \<open>self.exit\<close> raises after
  printing the message.
\<close>

definition error :: "parser \<Rightarrow> string \<Rightarrow> exc" where
  "error self message =
     SystemExit 2 (prog self @ '': error: '' @ message @ [CHR 0x0A]) (debug self)"

text \<open>
  \<open>ArgumentParser.add_subparsers\<close>: the default is stored as given, and the subparsers
  action is created on the first call.
\<close>

definition add_subparsers :: "string option \<Rightarrow> parser \<Rightarrow> parser" where
  "add_subparsers default_name self =
     self\<lparr>default_subparser := default_name, has_subparsers := True\<rparr>"

text \<open>\<open>ArgumentParser._parse_known_args\<close>.\<close>

definition skip_subparser_fallback :: "parser \<Rightarrow> string list \<Rightarrow> bool" where
  "skip_subparser_fallback self arg_strings \<longleftrightarrow>
     default_subparser self = None
     \<or> (''-h'' \<in> set arg_strings \<or> ''--help'' \<in> set arg_strings)
     \<or> (case arg_strings of [] \<Rightarrow> False | a # rest \<Rightarrow> a \<in> set (map fst (subparsers self)))"

fun parse_parents :: "parse_fn list \<Rightarrow> parse_fn" where
  "parse_parents [] arg_strings namespace = Inr (namespace, arg_strings)"
| "parse_parents (parser # rest) arg_strings namespace =
     (case parser arg_strings namespace of
        Inl e \<Rightarrow> Inl e
      | Inr (namespace', arg_strings') \<Rightarrow> parse_parents rest arg_strings' namespace')"

definition unknown_subparser :: "(string \<Rightarrow> string) \<Rightarrow> parser \<Rightarrow> string \<Rightarrow> exc" where
  "unknown_subparser repr self d =
     ValueError (''unknown subparser '' @ repr d @ '' (available subparsers ''
                 @ join '', '' (sort (map fst (subparsers self))) @ '')'')"

definition p_parse_known_args :: "(string \<Rightarrow> string) \<Rightarrow> parse_fn \<Rightarrow> parser \<Rightarrow> parse_fn" where
  "p_parse_known_args repr super self arg_strings namespace =
     (if \<not> skip_subparser_fallback self arg_strings then
        (case default_subparser self of
           None \<Rightarrow> super arg_strings namespace
         | Some d \<Rightarrow>
             if d \<notin> set (map fst (subparsers self)) then Inl (unknown_subparser repr self d)
             else (case parse_parents (parents self) arg_strings namespace of
                     Inl e \<Rightarrow> Inl e
                   | Inr (namespace', arg_strings') \<Rightarrow> super (d # arg_strings') namespace'))
      else super arg_strings namespace)"

text \<open>
  \<open>ArgumentParser.parse_args\<close>. First the lines that copy \<open>prog\<close>, \<open>main_func\<close> and
  \<open>final_check\<close> of the chosen subcommand into the namespace.
\<close>

definition subparsers_get :: "parser \<Rightarrow> val \<Rightarrow> exc + subcommand option" where
  "subparsers_get self v =
     (case v of
        StrV s \<Rightarrow> Inr (map_of (subparsers self) s)
      | OtherV hashable n \<Rightarrow>
          if hashable then Inr None else Inl (TypeError ''unhashable type'')
      | other \<Rightarrow> Inr None)"

definition set_optional :: "string \<Rightarrow> val option \<Rightarrow> namespace \<Rightarrow> namespace" where
  "set_optional name v namespace =
     (case v of None \<Rightarrow> namespace | Some x \<Rightarrow> AList.update name x namespace)"

definition bind_subcommand :: "callables \<Rightarrow> parser \<Rightarrow> namespace \<Rightarrow> exc + namespace" where
  "bind_subcommand F self args =
     (case getattr_None F args ''subcommand'' of
        (ns', Inl e) \<Rightarrow> Inl e
      | (ns', Inr v) \<Rightarrow>
          (case subparsers_get self v of
             Inl e \<Rightarrow> Inl e
           | Inr None \<Rightarrow> Inr ns'
           | Inr (Some subcmd_parser) \<Rightarrow>
               Inr (set_optional ''final_check'' (sub_final_check subcmd_parser)
                     (set_optional ''main_func'' (sub_main_func subcmd_parser)
                       (AList.update ''prog'' (StrV (sub_prog subcmd_parser)) ns')))))"

text \<open>The handlers around the second loop.\<close>

fun delay_error :: "parser \<Rightarrow> string \<Rightarrow> exc \<Rightarrow> exc" where
  "delay_error self attr (TypeError m) =
     TypeError (''failed loading/parsing '' @ [CHR 0x27] @ attr @ [CHR 0x27] @ '': '' @ m)"
| "delay_error self attr (ValueError m) =
     TypeError (''failed loading/parsing '' @ [CHR 0x27] @ attr @ [CHR 0x27] @ '': '' @ m)"
| "delay_error self attr (ArgumentError name m) = error self (str_exc (ArgumentError name m))"
| "delay_error self attr e = e"

text \<open>The last lines: the final check is read, removed and called.\<close>

definition run_final_check :: "callables \<Rightarrow> namespace \<Rightarrow> exc + namespace" where
  "run_final_check F args =
     (case getattr_None F args ''final_check'' of
        (ns', Inl e) \<Rightarrow> Inl e
      | (ns', Inr NoneV) \<Rightarrow> Inr ns'
      | (ns', Inr final_check) \<Rightarrow>
          (case delattr ns' ''final_check'' of
             (ns'', Some e) \<Rightarrow> Inl e
           | (ns'', None) \<Rightarrow>
               (case call_value F final_check ns'' of
                  (ns3, Some e) \<Rightarrow> Inl e
                | (ns3, None) \<Rightarrow> Inr ns3)))"

definition resolve :: "callables \<Rightarrow> parser \<Rightarrow> namespace \<Rightarrow> exc + namespace" where
  "resolve F self args =
     (case pass1 F args of
        (calls1, ns1, Some (attr, e)) \<Rightarrow> Inl e
      | (calls1, ns1, None) \<Rightarrow>
          (case pass2 F ns1 of
             (calls2, ns2, Some (attr, e)) \<Rightarrow> Inl (delay_error self attr e)
           | (calls2, ns2, None) \<Rightarrow> run_final_check F ns2))"

definition parse_args ::
  "callables \<Rightarrow> parse_fn \<Rightarrow> parser \<Rightarrow> string list \<Rightarrow> namespace option \<Rightarrow> exc + namespace" where
  "parse_args F parse_known_args self args namespace =
     (case parse_known_args args (case namespace of None \<Rightarrow> [] | Some ns \<Rightarrow> ns) of
        Inl e \<Rightarrow> Inl e
      | Inr (args', unknown_args) \<Rightarrow>
          (case bind_subcommand F self args' of
             Inl e \<Rightarrow> Inl e
           | Inr ns \<Rightarrow>
               if unknown_args \<noteq> []
               then Inl (error self (''unrecognized arguments: '' @ join '' '' unknown_args))
               else resolve F self ns))"

section \<open>Hypotheses on callables, and example data\<close>

text \<open>
  Three properties of the callables that the resolution guarantee rests on. The
  namespace is a dictionary (its names are distinct) and callables keep it one; no
  callable that returns normally leaves a delayed value under a name that did not hold
  that delayed value before; and each delayed value registered in \<open>ns0\<close>, when it is
  called for its attribute and returns normally, leaves no delayed value under that
  attribute.
\<close>

definition keeps_dict :: "callables \<Rightarrow> bool" where
  "keeps_dict F \<longleftrightarrow>
     (\<forall>i args ns. distinct (map fst ns) \<longrightarrow> distinct (map fst (fst (F i args ns))))"

definition stores_no_delayed :: "callables \<Rightarrow> bool" where
  "stores_no_delayed F \<longleftrightarrow>
     (\<forall>i args ns ns' k d.
        distinct (map fst ns) \<longrightarrow> F i args ns = (ns', None) \<longrightarrow>
        map_of ns' k = Some (DelayedV d) \<longrightarrow> map_of ns k = Some (DelayedV d))"

definition resolves_own :: "callables \<Rightarrow> namespace \<Rightarrow> bool" where
  "resolves_own F ns0 \<longleftrightarrow>
     (\<forall>attr d ns ns'.
        map_of ns0 attr = Some (DelayedV d) \<longrightarrow> distinct (map fst ns) \<longrightarrow>
        call_delayed F d ns attr = (ns', None) \<longrightarrow>
        (\<forall>d'. map_of ns' attr \<noteq> Some (DelayedV d')))"

text \<open>A delayed value built by \<open>DelayedDefault.wipe\<close>.\<close>

fun is_wipe :: "delayed \<Rightarrow> bool" where
  "is_wipe (DelayedDefault_wipe attrs p) = True"
| "is_wipe d = False"

text \<open>
  Callables to run the model on: \<open>store_value\<close> stores a string under the attribute it
  is called for (what a function bound with \<open>bind_delayed_default\<close> is meant to do) and
  does nothing on other arguments; \<open>do_nothing\<close> returns at once; \<open>raising\<close> raises a
  \<open>ValueError\<close> (callable 0) or an \<open>ArgumentError\<close> (any other).
\<close>

definition store_value :: callables where
  "store_value i args ns =
     (case args of
        [ArgNamespace, ArgStr attr] \<Rightarrow> (AList.update attr (StrV ''v'') ns, None)
      | other \<Rightarrow> (ns, None))"

definition do_nothing :: callables where
  "do_nothing i args ns = (ns, None)"

definition raising :: callables where
  "raising i args ns =
     (if i = 0 then (ns, Some (ValueError ''bad value''))
      else (ns, Some (ArgumentError (Some ''--x'') ''not allowed'')))"

text \<open>
  The specification's wording of a resolution pass, to compare the loop with: the
  collected values are executed one after the other in the order given, each on the
  namespace that the call before it left, and the pass ends at the first call that
  raises, with the namespace as that call left it.
\<close>

fun execute_in_order ::
  "callables \<Rightarrow> (string \<times> delayed) list \<Rightarrow> namespace \<Rightarrow> namespace \<times> (string \<times> exc) option" where
  "execute_in_order F [] namespace = (namespace, None)"
| "execute_in_order F (c # rest) namespace =
     (case call_delayed F (snd c) namespace (fst c) of
        (ns', Some e) \<Rightarrow> (ns', Some (fst c, e))
      | (ns', None) \<Rightarrow> execute_in_order F rest ns')"

text \<open>
  A callable whose calls do not commute: called for an attribute, it appends the
  attribute's name to the string under \<open>log\<close> and stores a string under the attribute.
\<close>

definition log_call :: callables where
  "log_call i args ns =
     (case args of
        [ArgNamespace, ArgStr attr] \<Rightarrow>
          (AList.update attr (StrV ''v'')
             (AList.update ''log''
                (StrV ((case map_of ns ''log'' of Some (StrV s) \<Rightarrow> s | other \<Rightarrow> []) @ attr)) ns),
           None)
      | other \<Rightarrow> (ns, None))"

text \<open>
  Stand-ins for the standard library's parser, enough to run the methods on. A
  \<open>flag_parser\<close> knows some flags (option string and destination) and stores true under
  the destination of each flag it sees; a \<open>command_parser\<close> also knows subcommands, each
  with flags of its own: the first subcommand name it sees is stored under
  \<open>subcommand\<close> and the rest of the line goes to that subcommand's flags. A token
  nobody knows is handed back. \<open>with_defaults\<close> is a \<open>parse_known_args\<close> that only
  stores the given defaults.
\<close>

fun flag_parser :: "(string \<times> string) list \<Rightarrow> parse_fn" where
  "flag_parser flags [] namespace = Inr (namespace, [])"
| "flag_parser flags (a # arg_strings) namespace =
     (case map_of flags a of
        Some dest \<Rightarrow> flag_parser flags arg_strings (AList.update dest (BoolV True) namespace)
      | None \<Rightarrow>
          (case flag_parser flags arg_strings namespace of
             Inl e \<Rightarrow> Inl e
           | Inr (ns, extras) \<Rightarrow> Inr (ns, a # extras)))"

fun command_parser ::
  "(string \<times> string) list \<Rightarrow> (string \<times> (string \<times> string) list) list \<Rightarrow> parse_fn" where
  "command_parser flags subs [] namespace = Inr (namespace, [])"
| "command_parser flags subs (a # arg_strings) namespace =
     (case map_of flags a of
        Some dest \<Rightarrow>
          command_parser flags subs arg_strings (AList.update dest (BoolV True) namespace)
      | None \<Rightarrow>
          (case map_of subs a of
             Some sub_flags \<Rightarrow>
               flag_parser sub_flags arg_strings (AList.update ''subcommand'' (StrV a) namespace)
           | None \<Rightarrow>
               (case command_parser flags subs arg_strings namespace of
                  Inl e \<Rightarrow> Inl e
                | Inr (ns, extras) \<Rightarrow> Inr (ns, a # extras))))"

definition with_defaults :: "namespace \<Rightarrow> parse_fn" where
  "with_defaults defaults args namespace = Inr (namespace @ defaults, args)"

definition plain_parser :: parser where
  "plain_parser =
     \<lparr>prog = ''prog'', debug = False, default_subparser = None, has_subparsers = False,
      subparsers = [], parents = []\<rparr>"

definition build_parser :: "string option \<Rightarrow> parse_fn list \<Rightarrow> parser" where
  "build_parser default_name ps =
     \<lparr>prog = ''prog'', debug = False, default_subparser = default_name, has_subparsers = True,
      subparsers = [(''build'', \<lparr>sub_prog = ''prog build'', sub_main_func = None,
                                 sub_final_check = None\<rparr>)],
      parents = ps\<rparr>"

section \<open>Comma-list actions: proofs\<close>

lemma str_split_ne: "str_split d s \<noteq> []"
  by (induction s) (auto split: list.splits)

lemma join_Cons_Cons: "join sep ((a # x) # xs) = a # join sep (x # xs)"
  by (cases xs) auto

lemma join_str_split: "join [d] (str_split d s) = s"
  by (induction s) (auto split: list.splits simp: str_split_ne join_Cons_Cons)










section \<open>The three-way splitter: proofs\<close>

lemma split_elements_Inr:
  "split_elements ts = Inr (neg, neu, pos) \<Longrightarrow>
     neg = map strip_sign (filter (\<lambda>t. sign_of t = Disabled) ts)
   \<and> neu = filter (\<lambda>t. sign_of t = Neutral) ts
   \<and> pos = map strip_sign (filter (\<lambda>t. sign_of t = Enabled) ts)"
proof (induction ts arbitrary: neg neu pos)
  case Nil then show ?case by simp
next
  case (Cons token rest)
  then show ?case
    by (cases token) (auto split: if_splits sum.splits prod.splits)
qed

lemma elements_loop_Inr:
  "elements_loop d n e vs = Inr (d', n', e') \<Longrightarrow>
     d' = d @ map strip_sign (filter (\<lambda>t. sign_of t = Disabled) (concat (map tokens vs)))
   \<and> n' = n @ filter (\<lambda>t. sign_of t = Neutral) (concat (map tokens vs))
   \<and> e' = e @ map strip_sign (filter (\<lambda>t. sign_of t = Enabled) (concat (map tokens vs)))"
proof (induction vs arbitrary: d n e)
  case Nil then show ?case by simp
next
  case (Cons v vs)
  then obtain neg neu pos where s: "split_elements (tokens v) = Inr (neg, neu, pos)"
    and r: "elements_loop (d @ neg) (n @ neu) (e @ pos) vs = Inr (d', n', e')"
    by (auto split: sum.splits exc.splits prod.splits)
  from split_elements_Inr[OF s] Cons.IH[OF r] show ?case by simp
qed

lemma neutral_strip: "sign_of t = Neutral \<Longrightarrow> strip_sign t = t"
  by (cases t) (auto split: if_splits)

lemma mset_by_sign:
  "mset (map strip_sign (filter (\<lambda>t. sign_of t = Disabled) ts)
         @ filter (\<lambda>t. sign_of t = Neutral) ts
         @ map strip_sign (filter (\<lambda>t. sign_of t = Enabled) ts))
   = mset (map strip_sign ts)"
proof (induction ts)
  case Nil then show ?case by simp
next
  case (Cons t ts)
  then show ?case by (cases "sign_of t") (auto simp: neutral_strip)
qed

text \<open>
  Claim C6. When \<open>CommaSeparatedElements.parse_values\<close> returns, each input token
  (occurrence) lands in exactly one of the three lists, chosen by its sign, in input
  order within the list and without its sign: the disabled list is the \<open>-\<close> tokens,
  the neutral list the unprefixed ones, the enabled list the \<open>+\<close> tokens. The three
  lists together are, as a multiset, the input tokens with their sign removed, and
  their lengths add up to the number of input tokens.
\<close>

theorem C6_elements_partition:
  assumes "CommaSeparatedElements_parse_values vs = Inr (disabled, neutral, enabled)"
  shows "disabled = map strip_sign (filter (\<lambda>t. sign_of t = Disabled) (all_tokens vs))
       \<and> neutral = filter (\<lambda>t. sign_of t = Neutral) (all_tokens vs)
       \<and> enabled = map strip_sign (filter (\<lambda>t. sign_of t = Enabled) (all_tokens vs))
       \<and> mset (disabled @ neutral @ enabled) = mset (map strip_sign (all_tokens vs))
       \<and> length disabled + length neutral + length enabled = length (all_tokens vs)"
proof -
  have parts: "disabled = map strip_sign (filter (\<lambda>t. sign_of t = Disabled) (all_tokens vs))
       \<and> neutral = filter (\<lambda>t. sign_of t = Neutral) (all_tokens vs)
       \<and> enabled = map strip_sign (filter (\<lambda>t. sign_of t = Enabled) (all_tokens vs))"
  proof (cases vs)
    case (Str s)
    with assms elements_loop_Inr[of "[]" "[]" "[]" "[s]" disabled neutral enabled]
    show ?thesis by simp
  next
    case (Seq ss)
    with assms elements_loop_Inr[of "[]" "[]" "[]" ss disabled neutral enabled]
    show ?thesis by simp
  qed
  have m: "mset (disabled @ neutral @ enabled) = mset (map strip_sign (all_tokens vs))"
    using parts mset_by_sign[of "all_tokens vs"] by simp
  have "size (mset (disabled @ neutral @ enabled)) = size (mset (map strip_sign (all_tokens vs)))"
    using m by simp
  then have "length disabled + length neutral + length enabled = length (all_tokens vs)"
    by simp
  with parts m show ?thesis by blast
qed

text \<open>Two values, one with an empty position, and a name that occurs under two signs.\<close>

theorem C6_elements_partition_witness:
  "CommaSeparatedElements_parse_values (Seq [''-a,b,+c'', ''a,,-e'']) =
     Inr ([''a'', ''e''], [''b'', ''a''], [''c''])
   \<and> all_tokens (Seq [''-a,b,+c'', ''a,,-e'']) = [''-a'', ''b'', ''+c'', ''a'', ''-e'']
   \<and> mset ([''a'', ''e''] @ [''b'', ''a''] @ [''c''])
       = mset (map strip_sign (all_tokens (Seq [''-a,b,+c'', ''a,,-e''])))"
proof -
  have h: "CommaSeparatedElements_parse_values (Seq [''-a,b,+c'', ''a,,-e'']) =
     Inr ([''a'', ''e''], [''b'', ''a''], [''c''])"
    by (simp add: tokens_def)
  have t: "all_tokens (Seq [''-a,b,+c'', ''a,,-e'']) = [''-a'', ''b'', ''+c'', ''a'', ''-e'']"
    by (simp add: tokens_def)
  from C6_elements_partition[OF h] h t show ?thesis by blast
qed


section \<open>The boolean option converter: proofs\<close>

lemma boolean_cases:
  "boolean repr v =
     (if lower v \<in> {''y'', ''yes'', ''true''} then Inr True
      else if lower v \<in> {''n'', ''no'', ''false''} then Inr False
      else Inl (ValueError (''value '' @ repr (lower v) @ '' must be [y|yes|true|n|no|false]'')))"
  by (simp add: boolean_def Let_def)

text \<open>
  Claim C7. \<open>StoreBool.boolean\<close> returns true exactly for the tokens that are
  \<open>y\<close>, \<open>yes\<close> or \<open>true\<close> after lowering, false exactly for \<open>n\<close>, \<open>no\<close> or
  \<open>false\<close>, and for every other token raises a \<open>ValueError\<close> whose message ends
  with the allowed literals \<open>[y|yes|true|n|no|false]\<close>.
\<close>

theorem C7_boolean:
  "(boolean repr v = Inr True \<longleftrightarrow> lower v \<in> {''y'', ''yes'', ''true''})
   \<and> (boolean repr v = Inr False \<longleftrightarrow> lower v \<in> {''n'', ''no'', ''false''})
   \<and> (lower v \<notin> {''y'', ''yes'', ''true'', ''n'', ''no'', ''false''} \<longrightarrow>
        boolean repr v =
          Inl (ValueError (''value '' @ repr (lower v) @ '' must be [y|yes|true|n|no|false]'')))"
  unfolding boolean_cases by auto

text \<open>Mixed-case tokens and a token outside the literal set.\<close>

theorem C7_boolean_witness:
  "boolean quote_repr ''YeS'' = Inr True
   \<and> boolean quote_repr ''FALSE'' = Inr False
   \<and> lower ''Bogus'' \<notin> {''y'', ''yes'', ''true'', ''n'', ''no'', ''false''}
   \<and> boolean quote_repr ''Bogus'' =
       Inl (ValueError (''value '' @ quote_repr ''bogus'' @ '' must be [y|yes|true|n|no|false]''))"
proof -
  have l: "lower ''YeS'' = ''yes''" "lower ''FALSE'' = ''false''" "lower ''Bogus'' = ''bogus''"
    by code_simp+
  show ?thesis
    using C7_boolean[of quote_repr "''YeS''"] C7_boolean[of quote_repr "''FALSE''"]
      C7_boolean[of quote_repr "''Bogus''"]
    by (simp add: l)
qed

section \<open>The test double formatter: proofs\<close>

lemma coalesced_Cons:
  "coalesced (x # xs) \<longleftrightarrow> coalesced xs \<and> (xs \<noteq> [] \<longrightarrow> \<not> (is_bytes x \<and> is_bytes (hd xs)))"
  by (cases xs) auto

lemma coalesced_append:
  "coalesced (xs @ ys) \<longleftrightarrow>
     coalesced xs \<and> coalesced ys \<and>
     (xs \<noteq> [] \<and> ys \<noteq> [] \<longrightarrow> \<not> (is_bytes (last xs) \<and> is_bytes (hd ys)))"
proof (induction xs)
  case Nil
  then show ?case by simp
next
  case (Cons x xs)
  show ?case
  proof (cases "xs = []")
    case True
    then show ?thesis by (simp add: coalesced_Cons)
  next
    case False
    then show ?thesis using Cons.IH by (auto simp: coalesced_Cons hd_append)
  qed
qed

lemma write_loop_chunked:
  "objectlist = [] \<or> (objectlist \<noteq> [] \<and> is_bytes (hd objectlist) \<and> \<not> is_bytes (last objectlist) \<and> coalesced objectlist)
   \<Longrightarrow> chunked (write_loop args stringlist objectlist)"
proof (induction args arbitrary: stringlist objectlist)
  case Nil
  then show ?case by (auto simp: chunked_def coalesced_append hd_append)
next
  case (Cons arg args)
  show ?case
  proof (cases arg)
    case (Bytes b)
    then show ?thesis using Cons.IH[OF Cons.prems] by simp
  next
    case (Marker m)
    have "chunked (write_loop args [] (objectlist @ [Bytes (concat stringlist)] @ [arg]))"
      by (rule Cons.IH) (use Cons.prems Marker in \<open>auto simp: coalesced_append hd_append\<close>)
    then show ?thesis using Marker by simp
  next
    case (Other n)
    have "chunked (write_loop args [] (objectlist @ [Bytes (concat stringlist)] @ [arg]))"
      by (rule Cons.IH) (use Cons.prems Other in \<open>auto simp: coalesced_append hd_append\<close>)
    then show ?thesis using Other by simp
  qed
qed

lemma merge_last_chunked:
  assumes "self = [] \<or> chunked self" and "chunked ol"
  shows "chunked (merge_last self ol)"
proof (cases ol)
  case Nil then show ?thesis using assms by (simp add: chunked_def)
next
  case (Cons first rest)
  then obtain b where fb: "first = Bytes b" using assms(2) by (cases first) (auto simp: chunked_def)
  have rest: "coalesced rest" "rest \<noteq> [] \<Longrightarrow> \<not> is_bytes (hd rest)" "rest \<noteq> [] \<Longrightarrow> is_bytes (last rest)"
    using assms(2) Cons fb by (cases rest; auto simp: chunked_def)+
  show ?thesis
  proof (cases "self = []")
    case True then show ?thesis using assms(2) Cons by simp
  next
    case False
    with assms(1) have cs: "chunked self" by simp
    then obtain a where la: "last self = Bytes a" by (cases "last self") (auto simp: chunked_def)
    have self_eq: "self = butlast self @ [Bytes a]" using False la
      by (metis append_butlast_last_id)
    have cb: "coalesced (butlast self @ [Bytes a])" using cs self_eq by (simp add: chunked_def)
    have hdb: "is_bytes (hd (butlast self @ [Bytes (a @ b)]))"
    proof (cases "butlast self")
      case Nil then show ?thesis by simp
    next
      case (Cons h t)
      then have "hd self = h" using self_eq by (metis hd_append2 list.sel(1) list.distinct(1))
      then show ?thesis using cs Cons by (simp add: chunked_def)
    qed
    have cb': "coalesced (butlast self @ [Bytes (a @ b)])"
      using cb by (simp add: coalesced_append)
    have m: "merge_last self ol = (butlast self @ [Bytes (a @ b)]) @ rest"
      using False la fb Cons by simp
    have "coalesced ((butlast self @ [Bytes (a @ b)]) @ rest)"
      using cb' rest by (subst coalesced_append) auto
    moreover have "is_bytes (last ((butlast self @ [Bytes (a @ b)]) @ rest))"
      using rest by (cases "rest = []") auto
    moreover have "is_bytes (hd ((butlast self @ [Bytes (a @ b)]) @ rest))"
      using hdb by (auto simp: hd_append split: if_splits)
    ultimately show ?thesis unfolding m chunked_def by simp
  qed
qed

lemma write_chunked: "self = [] \<or> chunked self \<Longrightarrow> chunked (ListStream_write self args)"
  unfolding ListStream_write_def
  by (rule merge_last_chunked) (auto intro: write_loop_chunked)

lemma writes_chunked: "self = [] \<or> chunked self \<Longrightarrow> writes self calls = [] \<or> chunked (writes self calls)"
proof (induction calls arbitrary: self)
  case Nil then show ?case by simp
next
  case (Cons args calls)
  have "chunked (ListStream_write self args)" using Cons.prems by (rule write_chunked)
  then show ?case using Cons.IH by simp
qed

lemma writes_coalesced: "coalesced (writes [] calls)"
  using writes_chunked[of "[]" calls] by (auto simp: chunked_def)

text \<open>
  Claim C9. Writing text \<open>a\<close>, the marker \<open>Bold\<close> and text \<open>b\<close> to an empty
  \<open>ListStream\<close>, in three calls or in one, stores the marker as an entry of its own
  between the two text chunks; \<open>get_text_stream\<close> then returns \<open>a\<close> followed by
  \<open>b\<close> (for ASCII text) without the marker. Two texts written one after the other
  are stored as one chunk, and after any sequence of writes to an empty stream no two
  neighbouring entries are both text chunks.
\<close>

theorem C9_formatter_stream:
  "writes [] [[Bytes a], [Marker Bold], [Bytes b]] = [Bytes a, Marker Bold, Bytes b]
   \<and> ListStream_write [] [Bytes a, Marker Bold, Bytes b] = [Bytes a, Marker Bold, Bytes b]
   \<and> (list_all (\<lambda>c. (of_char c :: nat) < 128) (a @ b) \<longrightarrow>
        get_text_stream [Bytes a, Marker Bold, Bytes b] = Inr (a @ b))
   \<and> writes [] [[Bytes a], [Bytes b]] = [Bytes (a @ b)]
   \<and> coalesced (writes [] calls)"
  by (simp add: ListStream_write_def get_text_stream_def decode_ascii_def writes_coalesced)

text \<open>The sequence of the claim: \<open>"a"\<close>, \<open>Bold\<close>, \<open>"b"\<close>.\<close>

theorem C9_formatter_stream_witness:
  "writes [] [[Bytes ''a''], [Marker Bold], [Bytes ''b'']] = [Bytes ''a'', Marker Bold, Bytes ''b'']
   \<and> list_all (\<lambda>c. (of_char c :: nat) < 128) (''a'' @ ''b'')
   \<and> get_text_stream [Bytes ''a'', Marker Bold, Bytes ''b''] = Inr ''ab''
   \<and> writes [] [[Bytes ''a''], [Bytes ''b'']] = [Bytes ''ab'']
   \<and> coalesced (writes [] [[Bytes ''a''], [Marker Bold], [Bytes ''b'']])"
proof -
  have h: "list_all (\<lambda>c. (of_char c :: nat) < 128) (''a'' @ ''b'')" by simp
  show ?thesis
    using C9_formatter_stream[of "''a''" "''b''" "[[Bytes ''a''], [Marker Bold], [Bytes ''b'']]"] h
    by simp
qed

section \<open>Delayed values: deleting attributes\<close>

lemma delayed_items_set:
  "set (delayed_items C ns) = {(a, d). (a, DelayedV d) \<in> set ns \<and> C d}"
proof (induction ns)
  case Nil then show ?case by simp
next
  case (Cons kv ns)
  obtain k v where kv: "kv = (k, v)" by (cases kv)
  show ?case using Cons.IH by (cases v) (auto simp: kv)
qed

lemma set_sorted_by_priority: "set (sorted_by_priority L) = set L"
  by (simp add: sorted_by_priority_def)

lemma delattr_fst: "fst (delattr ns k) = AList.delete k ns"
  by (auto simp: delattr_def delete_notin_dom map_of_eq_None_iff split: option.splits)

lemma delattr_snd: "snd (delattr ns k) = None \<or> snd (delattr ns k) = Some (AttributeError k)"
  by (auto simp: delattr_def split: option.splits)

lemma delattr_cases:
  "delattr ns k = (AList.delete k ns, None) \<or> delattr ns k = (AList.delete k ns, Some (AttributeError k))"
  using delattr_fst[of ns k] delattr_snd[of ns k] by (cases "delattr ns k") auto

lemma delete_filter: "AList.delete k ns = filter (\<lambda>kv. fst kv \<notin> {k}) ns"
  by (induction ns) auto

lemma wipe_attrs_eq: "wipe_attrs attrs ns = (filter (\<lambda>kv. fst kv \<notin> set attrs) ns, None)"
proof (induction attrs arbitrary: ns)
  case Nil then show ?case by simp
next
  case (Cons a attrs)
  have "filter (\<lambda>kv. fst kv \<notin> set attrs) (AList.delete a ns) = filter (\<lambda>kv. fst kv \<notin> set (a # attrs)) ns"
    by (auto simp: delete_filter intro: filter_cong)
  then show ?case using delattr_cases[of ns a] Cons.IH by auto
qed

lemma wipe_eq: "wipe attrs ns t = (filter (\<lambda>kv. fst kv \<notin> insert t (set attrs)) ns, None)"
proof -
  have "AList.delete t (filter (\<lambda>kv. fst kv \<notin> set attrs) ns) = filter (\<lambda>kv. fst kv \<notin> insert t (set attrs)) ns"
    by (auto simp: delete_filter intro: filter_cong)
  then show ?thesis
    using delattr_cases[of "filter (\<lambda>kv. fst kv \<notin> set attrs) ns" t]
    by (auto simp: wipe_def wipe_attrs_eq)
qed

lemma run_wipes:
  "\<forall>c\<in>set L. is_wipe (snd c) \<Longrightarrow>
   \<exists>K. fst ` set L \<subseteq> K \<and> run_delayed F L ns = (L, filter (\<lambda>kv. fst kv \<notin> K) ns, None)"
proof (induction L arbitrary: ns)
  case Nil
  then show ?case by (auto intro: exI[of _ "{}"])
next
  case (Cons c L)
  obtain a d where c: "c = (a, d)" by (cases c)
  with Cons.prems obtain attrs p where d: "d = DelayedDefault_wipe attrs p"
    by (cases d) auto
  let ?K1 = "insert a (set attrs)"
  let ?ns1 = "filter (\<lambda>kv. fst kv \<notin> ?K1) ns"
  from Cons.prems have "\<forall>c\<in>set L. is_wipe (snd c)" by simp
  from Cons.IH[OF this, of ?ns1] obtain K where
    K: "fst ` set L \<subseteq> K" "run_delayed F L ?ns1 = (L, filter (\<lambda>kv. fst kv \<notin> K) ?ns1, None)"
    by blast
  have "filter (\<lambda>kv. fst kv \<notin> K) ?ns1 = filter (\<lambda>kv. fst kv \<notin> ?K1 \<union> K) ns"
    by (auto intro: filter_cong)
  then have "run_delayed F (c # L) ns = (c # L, filter (\<lambda>kv. fst kv \<notin> ?K1 \<union> K) ns, None)"
    using K(2) by (simp add: c d wipe_eq)
  moreover have "fst ` set (c # L) \<subseteq> ?K1 \<union> K" using K(1) c by auto
  ultimately show ?case by blast
qed

text \<open>
  Claim C8. Pass 1 of the resolution is idempotent when every \<open>DelayedDefault\<close> on the
  namespace was built by \<open>DelayedDefault.wipe\<close> (so that each deletes its target
  attributes and its own triggering attribute): pass 1 then always completes, calling
  the collected values in priority order, only deletes attributes, leaves none of the
  triggering attributes behind, and a second pass 1 on the result calls nothing and
  returns the namespace unchanged.
\<close>

theorem C8_pass1_idempotent:
  assumes "\<And>a i p. (a, DelayedV (DelayedDefault i p)) \<notin> set ns"
  shows "\<exists>calls ns1. pass1 F ns = (calls, ns1, None)
           \<and> pass1 F ns1 = ([], ns1, None)
           \<and> set ns1 \<subseteq> set ns
           \<and> fst ` set calls \<inter> fst ` set ns1 = {}
           \<and> calls = sorted_by_priority (delayed_items is_DelayedDefault ns)"
proof -
  let ?L = "sorted_by_priority (delayed_items is_DelayedDefault ns)"
  have wipes: "\<forall>c\<in>set ?L. is_wipe (snd c)"
  proof
    fix c assume "c \<in> set ?L"
    then obtain a d where c: "c = (a, d)" "(a, DelayedV d) \<in> set ns" "is_DelayedDefault d"
      by (auto simp: set_sorted_by_priority delayed_items_set)
    with assms show "is_wipe (snd c)" by (cases d) auto
  qed
  from run_wipes[OF wipes, of F ns] obtain K where
    K: "fst ` set ?L \<subseteq> K" "run_delayed F ?L ns = (?L, filter (\<lambda>kv. fst kv \<notin> K) ns, None)"
    by blast
  let ?ns1 = "filter (\<lambda>kv. fst kv \<notin> K) ns"
  have "set (delayed_items is_DelayedDefault ?ns1) = {}"
  proof (rule ccontr)
    assume "set (delayed_items is_DelayedDefault ?ns1) \<noteq> {}"
    then obtain a d where "(a, DelayedV d) \<in> set ?ns1" "is_DelayedDefault d"
      by (auto simp: delayed_items_set)
    then have "(a, d) \<in> set ?L" "a \<notin> K"
      by (auto simp: set_sorted_by_priority delayed_items_set)
    with K(1) show False by force
  qed
  then have e: "delayed_items is_DelayedDefault ?ns1 = []" by simp
  have "pass1 F ?ns1 = ([], ?ns1, None)"
    by (simp add: pass1_def e sorted_by_priority_def)
  moreover have "pass1 F ns = (?L, ?ns1, None)" using K(2) by (simp add: pass1_def)
  moreover have "fst ` set ?L \<inter> fst ` set ?ns1 = {}" using K(1) by auto
  ultimately show ?thesis by auto
qed

text \<open>A wipe of \<open>config\<close> triggered by \<open>no_config\<close>, next to a delayed value of another class.\<close>

theorem C8_pass1_idempotent_witness:
  "pass1 do_nothing
     [(''config'', StrV ''c''), (''no_config'', DelayedV (DelayedDefault_wipe [''config''] 10)),
      (''other'', DelayedV (DelayedValue 0 0))]
     = ([(''no_config'', DelayedDefault_wipe [''config''] 10)],
        [(''other'', DelayedV (DelayedValue 0 0))], None)
   \<and> pass1 do_nothing [(''other'', DelayedV (DelayedValue 0 0))]
     = ([], [(''other'', DelayedV (DelayedValue 0 0))], None)"
proof -
  let ?ns = "[(''config'', StrV ''c''), (''no_config'', DelayedV (DelayedDefault_wipe [''config''] 10)),
      (''other'', DelayedV (DelayedValue 0 0))]"
  have hyp: "\<And>a i p. (a, DelayedV (DelayedDefault i p)) \<notin> set ?ns" by simp
  have h: "pass1 do_nothing ?ns = ([(''no_config'', DelayedDefault_wipe [''config''] 10)],
        [(''other'', DelayedV (DelayedValue 0 0))], None)"
    by (simp add: pass1_def sorted_by_priority_def wipe_def delattr_def)
  from C8_pass1_idempotent[of ?ns do_nothing, OF hyp] obtain calls ns1 where
    a: "pass1 do_nothing ?ns = (calls, ns1, None)" and b: "pass1 do_nothing ns1 = ([], ns1, None)"
    by blast
  from a h have "ns1 = [(''other'', DelayedV (DelayedValue 0 0))]" by simp
  with b have "pass1 do_nothing [(''other'', DelayedV (DelayedValue 0 0))]
     = ([], [(''other'', DelayedV (DelayedValue 0 0))], None)" by simp
  with h show ?thesis by (rule conjI)
qed

section \<open>Delayed values: the order of the calls\<close>

lemma run_delayed_calls:
  "run_delayed F L ns = (calls, ns', r) \<Longrightarrow>
     prefix calls L \<and> (r = None \<longrightarrow> calls = L)"
proof (induction L arbitrary: ns calls ns' r)
  case Nil then show ?case by simp
next
  case (Cons c L)
  obtain a d where c: "c = (a, d)" by (cases c)
  obtain ns1 e where call: "call_delayed F d ns a = (ns1, e)" by (cases "call_delayed F d ns a")
  show ?case
  proof (cases e)
    case (Some x)
    with Cons.prems call c show ?thesis by auto
  next
    case None
    obtain calls' ns2 r' where rest: "run_delayed F L ns1 = (calls', ns2, r')"
      by (cases "run_delayed F L ns1") auto
    with Cons.prems call c None have "calls = c # calls'" "r = r'" by auto
    with Cons.IH[OF rest] show ?thesis by auto
  qed
qed

lemma run_delayed_error:
  "run_delayed F L ns = (calls, ns', Some (attr, e)) \<Longrightarrow>
   \<exists>pre d rest nsm.
      L = pre @ (attr, d) # rest \<and> calls = pre @ [(attr, d)]
    \<and> run_delayed F pre ns = (pre, nsm, None)
    \<and> call_delayed F d nsm attr = (ns', Some e)"
proof (induction L arbitrary: ns calls)
  case Nil then show ?case by simp
next
  case (Cons c L)
  obtain a d where c: "c = (a, d)" by (cases c)
  obtain ns1 x where call: "call_delayed F d ns a = (ns1, x)" by (cases "call_delayed F d ns a")
  show ?case
  proof (cases x)
    case (Some e')
    with Cons.prems call c have eq: "calls = [(attr, d)]" "a = attr" "e' = e" "ns1 = ns'" by auto
    have "c # L = [] @ (attr, d) # L \<and> calls = [] @ [(attr, d)]
        \<and> run_delayed F [] ns = ([], ns, None) \<and> call_delayed F d ns attr = (ns', Some e)"
      using eq call c Some by simp
    then show ?thesis by blast
  next
    case None
    obtain calls' ns2 r' where rest: "run_delayed F L ns1 = (calls', ns2, r')"
      by (cases "run_delayed F L ns1") auto
    with Cons.prems call c None
    have eq: "calls = c # calls'" "ns2 = ns'" "r' = Some (attr, e)" by auto
    from rest eq have "run_delayed F L ns1 = (calls', ns', Some (attr, e))" by simp
    from Cons.IH[OF this] obtain dn d' rst nsm where
      IH: "L = dn @ (attr, d') # rst" "calls' = dn @ [(attr, d')]"
          "run_delayed F dn ns1 = (dn, nsm, None)" "call_delayed F d' nsm attr = (ns', Some e)"
      by blast
    have "run_delayed F (c # dn) ns = (c # dn, nsm, None)"
      using call None c IH(3) by simp
    moreover have "c # L = (c # dn) @ (attr, d') # rst" "calls = (c # dn) @ [(attr, d')]"
      using IH eq by auto
    ultimately have "c # L = (c # dn) @ (attr, d') # rst \<and> calls = (c # dn) @ [(attr, d')]
        \<and> run_delayed F (c # dn) ns = (c # dn, nsm, None) \<and> call_delayed F d' nsm attr = (ns', Some e)"
      using IH(4) by simp
    then show ?thesis by blast
  qed
qed

lemma sorted_sorted_by_priority: "sorted (map (\<lambda>c. priority (snd c)) (sorted_by_priority L))"
  by (simp add: sorted_by_priority_def)

lemma sorted_order:
  assumes s: "sorted (map f (calls @ later))" and b: "b \<in> set calls" and lt: "f a < f b"
    and a: "a \<in> set (calls @ later)"
  shows "\<exists>xs ys zs. calls = xs @ a # ys @ b # zs"
proof -
  from b obtain us vs where calls: "calls = us @ b # vs" by (meson split_list)
  have after: "\<forall>x\<in>set (vs @ later). f b \<le> f x"
    using s unfolding calls by (auto simp: sorted_append)
  have "a \<notin> set (vs @ later)"
  proof
    assume "a \<in> set (vs @ later)"
    with after have "f b \<le> f a" by blast
    with lt show False by simp
  qed
  moreover have "a \<noteq> b" using lt by auto
  ultimately have "a \<in> set us" using a unfolding calls by auto
  then obtain xs ys where "us = xs @ a # ys" by (meson split_list)
  then have "calls = xs @ a # ys @ b # vs" using calls by simp
  then show ?thesis by blast
qed

lemma map_of_delayed_item:
  "map_of ns a = Some (DelayedV d) \<Longrightarrow> (a, d) \<in> set (sorted_by_priority (delayed_items (\<lambda>d. True) ns))"
  by (auto simp: set_sorted_by_priority delayed_items_set dest: map_of_SomeD)

lemma distinct_delayed_items: "distinct (map fst ns) \<Longrightarrow> distinct (map fst (delayed_items C ns))"
proof (induction ns)
  case Nil then show ?case by simp
next
  case (Cons kv ns)
  obtain k v where kv: "kv = (k, v)" by (cases kv)
  have "fst ` set (delayed_items C ns) \<subseteq> fst ` set ns"
    by (force simp: delayed_items_set)
  then show ?case using Cons by (cases v) (auto simp: kv)
qed

lemma distinct_sorted_by_priority:
  assumes d: "distinct (map fst L)"
  shows "distinct (map fst (sorted_by_priority L))"
proof -
  have "mset (map fst (sorted_by_priority L)) = mset (map fst L)"
    by (simp add: sorted_by_priority_def)
  then show ?thesis using d mset_eq_imp_distinct_iff by blast
qed


lemma run_delayed_execute:
  "run_delayed F L ns = (calls, ns', r) \<Longrightarrow>
     execute_in_order F L ns = (ns', r) \<and> execute_in_order F calls ns = (ns', r)"
proof (induction L arbitrary: ns calls)
  case Nil
  then show ?case by simp
next
  case (Cons c L)
  obtain a d where c: "c = (a, d)" by (cases c)
  obtain ns1 x where call: "call_delayed F d ns a = (ns1, x)" by (cases "call_delayed F d ns a")
  show ?case
  proof (cases x)
    case (Some e)
    then have "calls = [c]" "ns' = ns1" "r = Some (a, e)" using Cons.prems call c by auto
    then show ?thesis using call c Some by simp
  next
    case None
    obtain calls' where rest: "run_delayed F L ns1 = (calls', ns', r)" and cs: "calls = c # calls'"
      using Cons.prems call c None by (cases "run_delayed F L ns1") auto
    from Cons.IH[OF rest] show ?thesis using call c None cs by simp
  qed
qed

lemma two_sorted:
  assumes d: "distinct (map f L)" and s: "set L = {x, y}" and lt: "g x < g y"
    and so: "sorted (map g L)"
  shows "L = [x, y]"
proof -
  have xy: "x \<noteq> y" using lt by auto
  have dl: "distinct L" using d by (simp add: distinct_map)
  have "length L = card (set L)" using dl by (simp add: distinct_card)
  then have len: "length L = 2" using s xy by simp
  then obtain p q where L: "L = [p, q]"
    by (cases L; cases "tl L"; cases "tl (tl L)") auto
  have pq: "g p \<le> g q" using so L by simp
  have "{p, q} = {x, y}" using s L by simp
  then have "(p = x \<and> q = y) \<or> (p = y \<and> q = x)" by (auto simp: doubleton_eq_iff)
  then show ?thesis using pq lt L by auto
qed

lemma pass2_two:
  assumes d: "distinct (map fst ns)"
    and s: "set (delayed_items (\<lambda>d. True) ns) = {(a, da), (b, db)}"
    and lt: "priority da < priority db"
  shows "pass2 F ns =
          (case call_delayed F da ns a of
             (ns1, Some e) \<Rightarrow> ([(a, da)], ns1, Some (a, e))
           | (ns1, None) \<Rightarrow>
               (case call_delayed F db ns1 b of
                  (ns2, Some e) \<Rightarrow> ([(a, da), (b, db)], ns2, Some (b, e))
                | (ns2, None) \<Rightarrow> ([(a, da), (b, db)], ns2, None)))"
proof -
  let ?L = "sorted_by_priority (delayed_items (\<lambda>d. True) ns)"
  have dL: "distinct (map fst ?L)"
    using d by (intro distinct_sorted_by_priority distinct_delayed_items)
  have sL: "set ?L = {(a, da), (b, db)}" using s by (simp add: set_sorted_by_priority)
  have lt': "priority (snd (a, da)) < priority (snd (b, db))" using lt by simp
  have L: "?L = [(a, da), (b, db)]"
    by (rule two_sorted[where f = fst and g = "\<lambda>c. priority (snd c)", OF dL sL lt'
          sorted_sorted_by_priority])
  show ?thesis unfolding pass2_def L
    by (simp split: prod.splits option.splits)
qed

text \<open>
  Claim C3. Pass 2 executes the collected delayed values in ascending priority order.
  The calls it makes are an initial part of the collected values sorted by priority,
  all of them when no call raises, and each attribute is called at most once. The
  namespace and the exception it ends with are those of executing the sorted values
  one after the other, each call on the namespace the call before it left, up to the
  first call that raises. If the namespace holds delayed values under the names \<open>a\<close>
  and \<open>b\<close> and the priority of the first is smaller (1 and 2 in the claim), then
  whenever the second is called, and always when pass 2 completes, the first was called
  before it; and when these two are the only delayed values, the first is called on the
  namespace as pass 2 found it, the second on the namespace the first left, and not at
  all when the first raises.
\<close>

theorem C3_pass2_priority_order:
  assumes "pass2 F ns = (calls, ns', r)"
  shows "sorted (map (\<lambda>c. priority (snd c)) calls)
       \<and> prefix calls (sorted_by_priority (delayed_items (\<lambda>d. True) ns))
       \<and> (r = None \<longrightarrow> calls = sorted_by_priority (delayed_items (\<lambda>d. True) ns))
       \<and> (distinct (map fst ns) \<longrightarrow> distinct (map fst calls))
       \<and> (map_of ns a = Some (DelayedV da) \<and> map_of ns b = Some (DelayedV db)
            \<and> priority da < priority db \<and> ((b, db) \<in> set calls \<or> r = None)
          \<longrightarrow> (\<exists>xs ys zs. calls = xs @ (a, da) # ys @ (b, db) # zs))
       \<and> execute_in_order F (sorted_by_priority (delayed_items (\<lambda>d. True) ns)) ns = (ns', r)
       \<and> execute_in_order F calls ns = (ns', r)
       \<and> (distinct (map fst ns) \<and> set (delayed_items (\<lambda>d. True) ns) = {(a, da), (b, db)}
            \<and> priority da < priority db
          \<longrightarrow> (calls, ns', r) =
                (case call_delayed F da ns a of
                   (ns1, Some e) \<Rightarrow> ([(a, da)], ns1, Some (a, e))
                 | (ns1, None) \<Rightarrow>
                     (case call_delayed F db ns1 b of
                        (ns2, Some e) \<Rightarrow> ([(a, da), (b, db)], ns2, Some (b, e))
                      | (ns2, None) \<Rightarrow> ([(a, da), (b, db)], ns2, None))))"
proof -
  let ?L = "sorted_by_priority (delayed_items (\<lambda>d. True) ns)"
  let ?f = "\<lambda>c. priority (snd c)"
  from assms have run: "run_delayed F ?L ns = (calls, ns', r)" by (simp add: pass2_def)
  from run_delayed_calls[OF run] have p: "prefix calls ?L" and full: "r = None \<longrightarrow> calls = ?L"
    by blast+
  from p obtain later where L: "?L = calls @ later" by (auto simp: prefix_def)
  have sL: "sorted (map ?f (calls @ later))"
    using sorted_sorted_by_priority[of "delayed_items (\<lambda>d. True) ns"] unfolding L .
  then have s: "sorted (map ?f calls)" by (simp add: sorted_append)
  have dist: "distinct (map fst ns) \<longrightarrow> distinct (map fst calls)"
  proof
    assume "distinct (map fst ns)"
    then have "distinct (map fst ?L)"
      by (intro distinct_sorted_by_priority distinct_delayed_items)
    then show "distinct (map fst calls)" unfolding L by simp
  qed
  have ord: "map_of ns a = Some (DelayedV da) \<and> map_of ns b = Some (DelayedV db)
            \<and> priority da < priority db \<and> ((b, db) \<in> set calls \<or> r = None)
          \<longrightarrow> (\<exists>xs ys zs. calls = xs @ (a, da) # ys @ (b, db) # zs)"
  proof
    assume h: "map_of ns a = Some (DelayedV da) \<and> map_of ns b = Some (DelayedV db)
            \<and> priority da < priority db \<and> ((b, db) \<in> set calls \<or> r = None)"
    have ina: "(a, da) \<in> set (calls @ later)"
      using h map_of_delayed_item[of ns a da] unfolding L by blast
    have inb: "(b, db) \<in> set ?L"
      using h map_of_delayed_item[of ns b db] by blast
    have bc: "(b, db) \<in> set calls" using h full inb by auto
    have lt: "?f (a, da) < ?f (b, db)" using h by simp
    show "\<exists>xs ys zs. calls = xs @ (a, da) # ys @ (b, db) # zs"
      by (rule sorted_order[where f = ?f and later = later, OF sL bc lt ina])
  qed
  from run_delayed_execute[OF run] have
    ex1: "execute_in_order F ?L ns = (ns', r)" and ex2: "execute_in_order F calls ns = (ns', r)"
    by blast+
  have two: "distinct (map fst ns) \<and> set (delayed_items (\<lambda>d. True) ns) = {(a, da), (b, db)}
            \<and> priority da < priority db
          \<longrightarrow> (calls, ns', r) =
                (case call_delayed F da ns a of
                   (ns1, Some e) \<Rightarrow> ([(a, da)], ns1, Some (a, e))
                 | (ns1, None) \<Rightarrow>
                     (case call_delayed F db ns1 b of
                        (ns2, Some e) \<Rightarrow> ([(a, da), (b, db)], ns2, Some (b, e))
                      | (ns2, None) \<Rightarrow> ([(a, da), (b, db)], ns2, None)))"
  proof
    assume h: "distinct (map fst ns) \<and> set (delayed_items (\<lambda>d. True) ns) = {(a, da), (b, db)}
            \<and> priority da < priority db"
    then have "pass2 F ns =
                (case call_delayed F da ns a of
                   (ns1, Some e) \<Rightarrow> ([(a, da)], ns1, Some (a, e))
                 | (ns1, None) \<Rightarrow>
                     (case call_delayed F db ns1 b of
                        (ns2, Some e) \<Rightarrow> ([(a, da), (b, db)], ns2, Some (b, e))
                      | (ns2, None) \<Rightarrow> ([(a, da), (b, db)], ns2, None)))"
      by (intro pass2_two) blast+
    then show "(calls, ns', r) =
                (case call_delayed F da ns a of
                   (ns1, Some e) \<Rightarrow> ([(a, da)], ns1, Some (a, e))
                 | (ns1, None) \<Rightarrow>
                     (case call_delayed F db ns1 b of
                        (ns2, Some e) \<Rightarrow> ([(a, da), (b, db)], ns2, Some (b, e))
                      | (ns2, None) \<Rightarrow> ([(a, da), (b, db)], ns2, None)))"
      using assms by simp
  qed
  from s p full dist ord ex1 ex2 two show ?thesis by (intro conjI)
qed

text \<open>
  Priority 2 is set first, priority 1 second; the callable records the order of its
  calls in the namespace, and the record reads \<open>ab\<close>.
\<close>

theorem C3_pass2_priority_order_witness:
  "pass2 log_call [(''b'', DelayedV (DelayedValue 0 2)), (''a'', DelayedV (DelayedValue 1 1))]
     = ([(''a'', DelayedValue 1 1), (''b'', DelayedValue 0 2)],
        [(''b'', StrV ''v''), (''a'', StrV ''v''), (''log'', StrV ''ab'')], None)
   \<and> sorted (map (\<lambda>c. priority (snd c)) [(''a'', DelayedValue 1 1), (''b'', DelayedValue 0 2)])
   \<and> (\<exists>xs ys zs. [(''a'', DelayedValue 1 1), (''b'', DelayedValue 0 2)]
          = xs @ (''a'', DelayedValue 1 1) # ys @ (''b'', DelayedValue 0 2) # zs)
   \<and> call_delayed log_call (DelayedValue 1 1)
        [(''b'', DelayedV (DelayedValue 0 2)), (''a'', DelayedV (DelayedValue 1 1))] ''a''
     = ([(''b'', DelayedV (DelayedValue 0 2)), (''a'', StrV ''v''), (''log'', StrV ''a'')], None)
   \<and> call_delayed log_call (DelayedValue 0 2)
        [(''b'', DelayedV (DelayedValue 0 2)), (''a'', StrV ''v''), (''log'', StrV ''a'')] ''b''
     = ([(''b'', StrV ''v''), (''a'', StrV ''v''), (''log'', StrV ''ab'')], None)"
proof -
  let ?ns = "[(''b'', DelayedV (DelayedValue 0 2)), (''a'', DelayedV (DelayedValue 1 1))]"
  let ?calls = "[(''a'', DelayedValue 1 1), (''b'', DelayedValue 0 2)]"
  let ?res = "[(''b'', StrV ''v''), (''a'', StrV ''v''), (''log'', StrV ''ab'')]"
  obtain calls ns' r where run: "pass2 log_call ?ns = (calls, ns', r)"
    by (cases "pass2 log_call ?ns")
  note t = C3_pass2_priority_order[OF run, where a = "''a''" and b = "''b''"
      and da = "DelayedValue 1 1" and db = "DelayedValue 0 2"]
  have c1: "call_delayed log_call (DelayedValue 1 1) ?ns ''a''
     = ([(''b'', DelayedV (DelayedValue 0 2)), (''a'', StrV ''v''), (''log'', StrV ''a'')], None)"
    by (simp add: log_call_def)
  have c2: "call_delayed log_call (DelayedValue 0 2)
        [(''b'', DelayedV (DelayedValue 0 2)), (''a'', StrV ''v''), (''log'', StrV ''a'')] ''b''
     = (?res, None)"
    by (simp add: log_call_def)
  have pre2: "distinct (map fst ?ns)
            \<and> set (delayed_items (\<lambda>d. True) ?ns) = {(''a'', DelayedValue 1 1), (''b'', DelayedValue 0 2)}
            \<and> priority (DelayedValue 1 1) < priority (DelayedValue 0 2)"
    by auto
  have "(calls, ns', r) =
          (case call_delayed log_call (DelayedValue 1 1) ?ns ''a'' of
             (ns1, Some e) \<Rightarrow> ([(''a'', DelayedValue 1 1)], ns1, Some (''a'', e))
           | (ns1, None) \<Rightarrow>
               (case call_delayed log_call (DelayedValue 0 2) ns1 ''b'' of
                  (ns2, Some e) \<Rightarrow> (?calls, ns2, Some (''b'', e))
                | (ns2, None) \<Rightarrow> (?calls, ns2, None)))"
    using t[THEN conjunct2, THEN conjunct2, THEN conjunct2, THEN conjunct2, THEN conjunct2,
        THEN conjunct2, THEN conjunct2] pre2 by (rule mp)
  then have res: "(calls, ns', r) = (?calls, ?res, None)"
    by (simp only: c1 c2 prod.case option.case)
  then have h: "pass2 log_call ?ns = (?calls, ?res, None)" using run by simp
  have s: "sorted (map (\<lambda>c. priority (snd c)) ?calls)"
    using t[THEN conjunct1] res by simp
  have pre: "map_of ?ns ''a'' = Some (DelayedV (DelayedValue 1 1))
           \<and> map_of ?ns ''b'' = Some (DelayedV (DelayedValue 0 2))
           \<and> priority (DelayedValue 1 1) < priority (DelayedValue 0 2)
           \<and> ((''b'', DelayedValue 0 2) \<in> set calls \<or> r = None)"
    using res by simp
  have "\<exists>xs ys zs. calls = xs @ (''a'', DelayedValue 1 1) # ys @ (''b'', DelayedValue 0 2) # zs"
    using t[THEN conjunct2, THEN conjunct2, THEN conjunct2, THEN conjunct2, THEN conjunct1] pre
    by (rule mp)
  then have o: "\<exists>xs ys zs. ?calls = xs @ (''a'', DelayedValue 1 1) # ys @ (''b'', DelayedValue 0 2) # zs"
    using res by simp
  from h s o c1 c2 show ?thesis by (intro conjI)
qed

section \<open>Delayed values: exceptions in the second loop\<close>

text \<open>
  Claim C4. When a call in the pass-2 loop raises, \<open>attr\<close> is the attribute whose
  delayed value raised (the calls before it returned normally). A \<open>ValueError\<close> or a
  \<open>TypeError\<close> with message \<open>m\<close> leaves \<open>parse_args\<close> as the \<open>TypeError\<close>
  \<open>failed loading/parsing 'attr': m\<close>; an \<open>ArgumentError\<close> goes to the parser's
  \<open>error\<close>, which prints \<open>prog: error: message\<close> and exits with status 2.
\<close>

theorem C4_delayed_error_handling:
  assumes pka: "parse_known_args args (case namespace of None \<Rightarrow> [] | Some ns \<Rightarrow> ns) = Inr (ns0, [])"
    and bind: "bind_subcommand F self ns0 = Inr ns1"
    and p1: "pass1 F ns1 = (calls1, ns2, None)"
    and p2: "pass2 F ns2 = (calls2, ns3, Some (attr, e))"
  shows "(e = ValueError m \<or> e = TypeError m \<longrightarrow>
           parse_args F parse_known_args self args namespace =
             Inl (TypeError (''failed loading/parsing '' @ [CHR 0x27] @ attr @ [CHR 0x27] @ '': '' @ m)))
       \<and> (e = ArgumentError name m \<longrightarrow>
           parse_args F parse_known_args self args namespace =
             Inl (SystemExit 2 (prog self @ '': error: '' @ str_exc e @ [CHR 0x0A]) (debug self)))
       \<and> (\<exists>pre d rest nsm.
             sorted_by_priority (delayed_items (\<lambda>d. True) ns2) = pre @ (attr, d) # rest
           \<and> calls2 = pre @ [(attr, d)]
           \<and> run_delayed F pre ns2 = (pre, nsm, None)
           \<and> call_delayed F d nsm attr = (ns3, Some e))"
proof -
  have r: "parse_args F parse_known_args self args namespace = Inl (delay_error self attr e)"
    using pka bind p1 p2 by (simp add: parse_args_def resolve_def)
  have c1: "e = ValueError m \<or> e = TypeError m \<longrightarrow>
           parse_args F parse_known_args self args namespace =
             Inl (TypeError (''failed loading/parsing '' @ [CHR 0x27] @ attr @ [CHR 0x27] @ '': '' @ m))"
    unfolding r by auto
  have c2: "e = ArgumentError name m \<longrightarrow>
           parse_args F parse_known_args self args namespace =
             Inl (SystemExit 2 (prog self @ '': error: '' @ str_exc e @ [CHR 0x0A]) (debug self))"
    unfolding r by (simp add: error_def)
  from p2 have "run_delayed F (sorted_by_priority (delayed_items (\<lambda>d. True) ns2)) ns2 = (calls2, ns3, Some (attr, e))"
    by (simp add: pass2_def)
  from run_delayed_error[OF this] have c3:
    "\<exists>pre d rest nsm.
             sorted_by_priority (delayed_items (\<lambda>d. True) ns2) = pre @ (attr, d) # rest
           \<and> calls2 = pre @ [(attr, d)]
           \<and> run_delayed F pre ns2 = (pre, nsm, None)
           \<and> call_delayed F d nsm attr = (ns3, Some e)" .
  from c1 c2 c3 show ?thesis by (intro conjI)
qed

text \<open>A delayed value that raises a \<open>ValueError\<close>, and one that raises an \<open>ArgumentError\<close>.\<close>

theorem C4_delayed_error_handling_witness:
  "parse_args raising (with_defaults [(''x'', DelayedV (DelayedValue 0 0))]) plain_parser [] None
     = Inl (TypeError (''failed loading/parsing '' @ [CHR 0x27] @ ''x'' @ [CHR 0x27] @ '': '' @ ''bad value''))
   \<and> parse_args raising (with_defaults [(''x'', DelayedV (DelayedValue 1 0))]) plain_parser [] None
     = Inl (SystemExit 2 (''prog: error: argument --x: not allowed'' @ [CHR 0x0A]) False)"
proof -
  let ?n0 = "[(''x'', DelayedV (DelayedValue 0 0))]"
  let ?n1 = "[(''x'', DelayedV (DelayedValue 1 0))]"
  have pka0: "with_defaults ?n0 [] (case None of None \<Rightarrow> [] | Some ns \<Rightarrow> ns) = Inr (?n0, [])"
    and pka1: "with_defaults ?n1 [] (case None of None \<Rightarrow> [] | Some ns \<Rightarrow> ns) = Inr (?n1, [])"
    by (simp_all add: with_defaults_def)
  have b0: "bind_subcommand raising plain_parser ?n0 = Inr ?n0"
    and b1: "bind_subcommand raising plain_parser ?n1 = Inr ?n1"
    by (simp_all add: bind_subcommand_def getattr_None_def subparsers_get_def)
  have p10: "pass1 raising ?n0 = ([], ?n0, None)" and p11: "pass1 raising ?n1 = ([], ?n1, None)"
    by (simp_all add: pass1_def sorted_by_priority_def)
  have p20: "pass2 raising ?n0 = ([(''x'', DelayedValue 0 0)], ?n0, Some (''x'', ValueError ''bad value''))"
    and p21: "pass2 raising ?n1 = ([(''x'', DelayedValue 1 0)], ?n1,
                Some (''x'', ArgumentError (Some ''--x'') ''not allowed''))"
    by (simp_all add: pass2_def sorted_by_priority_def raising_def)
  have v: "ValueError ''bad value'' = ValueError ''bad value'' \<or> ValueError ''bad value'' = TypeError ''bad value''"
    by simp
  have r0: "parse_args raising (with_defaults ?n0) plain_parser [] None
     = Inl (TypeError (''failed loading/parsing '' @ [CHR 0x27] @ ''x'' @ [CHR 0x27] @ '': '' @ ''bad value''))"
    using C4_delayed_error_handling[where parse_known_args = "with_defaults ?n0" and args = "[]"
        and namespace = None and m = "''bad value''", OF pka0 b0 p10 p20, THEN conjunct1] v
    by (rule mp)
  have "parse_args raising (with_defaults ?n1) plain_parser [] None
     = Inl (SystemExit 2 (prog plain_parser @ '': error: '' @ str_exc (ArgumentError (Some ''--x'') ''not allowed'') @ [CHR 0x0A]) (debug plain_parser))"
    using C4_delayed_error_handling[where parse_known_args = "with_defaults ?n1" and args = "[]"
        and namespace = None and name = "Some ''--x''" and m = "''not allowed''",
        OF pka1 b1 p11 p21, THEN conjunct2, THEN conjunct1]
    by simp
  then have r1: "parse_args raising (with_defaults ?n1) plain_parser [] None
     = Inl (SystemExit 2 (''prog: error: argument --x: not allowed'' @ [CHR 0x0A]) False)"
    by (simp add: plain_parser_def)
  from r0 r1 show ?thesis by (rule conjI)
qed

section \<open>Delayed values: what is left after parsing\<close>

lemma map_of_filter_keys:
  "map_of (filter (\<lambda>kv. fst kv \<notin> K) ns) k = (if k \<in> K then None else map_of ns k)"
  by (induction ns) auto

lemma distinct_filter_keys: "distinct (map fst ns) \<Longrightarrow> distinct (map fst (filter P ns))"
  by (simp add: distinct_map_filter)

lemma delattr_dict: "distinct (map fst ns) \<Longrightarrow> distinct (map fst (fst (delattr ns k)))"
  by (simp add: delattr_fst distinct_delete)

lemma call_delayed_dict:
  assumes kd: "keeps_dict F" and d: "distinct (map fst ns)"
  shows "distinct (map fst (fst (call_delayed F d ns a)))"
proof (cases d)
  case (DelayedValue i p)
  then show ?thesis using kd d by (simp add: keeps_dict_def)
next
  case (DelayedDefault i p)
  then show ?thesis using kd d by (simp add: keeps_dict_def)
next
  case (DelayedDefault_wipe attrs p)
  then show ?thesis using d by (simp add: wipe_eq distinct_filter_keys)
next
  case (DelayedParse i p)
  then show ?thesis using kd d by (simp add: keeps_dict_def)
next
  case (OrderedParse i p)
  obtain ns1 x where f: "F i [ArgNamespace] ns = (ns1, x)" by (cases "F i [ArgNamespace] ns")
  have "distinct (map fst (fst (F i [ArgNamespace] ns)))"
    using kd d unfolding keeps_dict_def by blast
  then have d1: "distinct (map fst ns1)" using f by simp
  show ?thesis
  proof (cases x)
    case None
    then show ?thesis using OrderedParse f delattr_dict[OF d1, of a] by simp
  next
    case (Some e)
    then show ?thesis using OrderedParse f d1 by simp
  qed
qed

lemma call_delayed_no_new:
  assumes sn: "stores_no_delayed F" and d: "distinct (map fst ns)"
    and c: "call_delayed F dl ns a = (ns', None)"
    and m: "map_of ns' k = Some (DelayedV x)"
  shows "map_of ns k = Some (DelayedV x)"
proof (cases dl)
  case (DelayedValue i p)
  then show ?thesis using sn d c m unfolding stores_no_delayed_def by (metis call_delayed.simps(1))
next
  case (DelayedDefault i p)
  then show ?thesis using sn d c m unfolding stores_no_delayed_def by (metis call_delayed.simps(2))
next
  case (DelayedDefault_wipe attrs p)
  then have "ns' = filter (\<lambda>kv. fst kv \<notin> insert a (set attrs)) ns"
    using c unfolding DelayedDefault_wipe call_delayed.simps wipe_eq by simp
  then have "map_of ns' k = (if k \<in> insert a (set attrs) then None else map_of ns k)"
    using map_of_filter_keys[of "insert a (set attrs)" ns k] by simp
  then show ?thesis using m by (simp split: if_splits)
next
  case (DelayedParse i p)
  then show ?thesis using sn d c m unfolding stores_no_delayed_def by (metis call_delayed.simps(4))
next
  case (OrderedParse i p)
  obtain ns1 x1 where f: "F i [ArgNamespace] ns = (ns1, x1)" by (cases "F i [ArgNamespace] ns")
  have x1: "x1 = None" using c OrderedParse f by (cases x1) auto
  then have "delattr ns1 a = (ns', None)" using c OrderedParse f by simp
  then have "ns' = AList.delete a ns1" using delattr_fst[of ns1 a] by simp
  then have "map_of ns1 k = Some (DelayedV x)" using m by (simp add: delete_conv split: if_splits)
  then show ?thesis using sn d f x1 unfolding stores_no_delayed_def by blast
qed

lemma run_delayed_no_new:
  assumes kd: "keeps_dict F" and sn: "stores_no_delayed F"
  shows "distinct (map fst ns) \<Longrightarrow> run_delayed F L ns = (calls, ns', None) \<Longrightarrow>
         distinct (map fst ns') \<and>
         (\<forall>k x. map_of ns' k = Some (DelayedV x) \<longrightarrow> map_of ns k = Some (DelayedV x))"
proof (induction L arbitrary: ns calls)
  case Nil
  then show ?case by simp
next
  case (Cons c L)
  obtain a d where c: "c = (a, d)" by (cases c)
  obtain ns1 x where call: "call_delayed F d ns a = (ns1, x)" by (cases "call_delayed F d ns a")
  have x: "x = None" using Cons.prems(2) call c by (cases x) auto
  obtain calls' where rest: "run_delayed F L ns1 = (calls', ns', None)"
    using Cons.prems(2) call c x by (cases "run_delayed F L ns1") auto
  have d1: "distinct (map fst ns1)"
    using call_delayed_dict[OF kd Cons.prems(1), of d a] call by simp
  from Cons.IH[OF d1 rest] have IH: "distinct (map fst ns')"
    "\<forall>k x. map_of ns' k = Some (DelayedV x) \<longrightarrow> map_of ns1 k = Some (DelayedV x)" by blast+
  have "\<forall>k y. map_of ns1 k = Some (DelayedV y) \<longrightarrow> map_of ns k = Some (DelayedV y)"
    using call_delayed_no_new[OF sn Cons.prems(1)] call x by blast
  with IH show ?case by blast
qed

lemma run_delayed_resolves:
  assumes kd: "keeps_dict F" and sn: "stores_no_delayed F" and ro: "resolves_own F ns0"
  shows "distinct (map fst ns) \<Longrightarrow>
         (\<forall>c\<in>set L. map_of ns0 (fst c) = Some (DelayedV (snd c))) \<Longrightarrow>
         (\<forall>k x. map_of ns k = Some (DelayedV x) \<longrightarrow> (k, x) \<in> set L) \<Longrightarrow>
         run_delayed F L ns = (calls, ns', None) \<Longrightarrow>
         distinct (map fst ns') \<and> (\<forall>k x. map_of ns' k \<noteq> Some (DelayedV x))"
proof (induction L arbitrary: ns calls)
  case Nil
  then show ?case by simp
next
  case (Cons c L)
  obtain a d where c: "c = (a, d)" by (cases c)
  obtain ns1 x where call: "call_delayed F d ns a = (ns1, x)" by (cases "call_delayed F d ns a")
  have x: "x = None" using Cons.prems(4) call c by (cases x) auto
  obtain calls' where rest: "run_delayed F L ns1 = (calls', ns', None)"
    using Cons.prems(4) call c x by (cases "run_delayed F L ns1") auto
  have d1: "distinct (map fst ns1)"
    using call_delayed_dict[OF kd Cons.prems(1), of d a] call by simp
  have reg: "map_of ns0 a = Some (DelayedV d)" using Cons.prems(2) c by simp
  have own: "\<forall>d'. map_of ns1 a \<noteq> Some (DelayedV d')"
    using ro reg Cons.prems(1) call x unfolding resolves_own_def by blast
  have old: "\<forall>k y. map_of ns1 k = Some (DelayedV y) \<longrightarrow> map_of ns k = Some (DelayedV y)"
    using call_delayed_no_new[OF sn Cons.prems(1)] call x by blast
  have inv: "\<forall>k y. map_of ns1 k = Some (DelayedV y) \<longrightarrow> (k, y) \<in> set L"
  proof (intro allI impI)
    fix k y assume m: "map_of ns1 k = Some (DelayedV y)"
    then have "(k, y) \<in> set (c # L)" using old Cons.prems(3) by blast
    moreover have "k \<noteq> a" using m own by auto
    ultimately show "(k, y) \<in> set L" using c by auto
  qed
  have regL: "\<forall>c\<in>set L. map_of ns0 (fst c) = Some (DelayedV (snd c))" using Cons.prems(2) by simp
  from Cons.IH[OF d1 regL inv rest] show ?case .
qed

lemma delayed_items_map_of:
  assumes "distinct (map fst ns)"
  shows "(a, d) \<in> set (delayed_items C ns) \<longleftrightarrow> map_of ns a = Some (DelayedV d) \<and> C d"
  using assms by (auto simp: delayed_items_set)

lemma no_delayed_items:
  assumes "distinct (map fst ns)" and "\<forall>k x. map_of ns k \<noteq> Some (DelayedV x)"
  shows "delayed_items C ns = []"
proof -
  have "set (delayed_items C ns) = {}"
    using assms by (auto simp: delayed_items_set)
  then show ?thesis by simp
qed

lemma getattr_None_plain:
  assumes "\<forall>x. map_of ns name \<noteq> Some (DelayedV x)"
  shows "getattr_None F ns name =
           (ns, Inr (case map_of ns name of None \<Rightarrow> NoneV | Some v \<Rightarrow> v))"
proof (cases "map_of ns name")
  case None
  then show ?thesis by (simp add: getattr_None_def)
next
  case (Some v)
  then show ?thesis using assms by (cases v) (simp_all add: getattr_None_def)
qed

lemma call_value_no_new:
  assumes kd: "keeps_dict F" and sn: "stores_no_delayed F" and d: "distinct (map fst ns)"
    and nd: "\<forall>x. v \<noteq> DelayedV x"
    and c: "call_value F v ns = (ns', None)"
  shows "distinct (map fst ns') \<and>
         (\<forall>k x. map_of ns' k = Some (DelayedV x) \<longrightarrow> map_of ns k = Some (DelayedV x))"
proof (cases v)
  case (FuncV i)
  then have f: "F i [ArgParser, ArgNamespace] ns = (ns', None)" using c by simp
  have "distinct (map fst (fst (F i [ArgParser, ArgNamespace] ns)))"
    using kd d unfolding keeps_dict_def by blast
  then have "distinct (map fst ns')" using f by simp
  moreover have "\<forall>k x. map_of ns' k = Some (DelayedV x) \<longrightarrow> map_of ns k = Some (DelayedV x)"
    using sn d f unfolding stores_no_delayed_def by blast
  ultimately show ?thesis by blast
next
  case NoneV then show ?thesis using c by simp
next
  case (BoolV b) then show ?thesis using c by simp
next
  case (StrV s) then show ?thesis using c by simp
next
  case (DelayedV x) then show ?thesis using nd by simp
next
  case (OtherV h n) then show ?thesis using c by simp
qed

lemma run_final_check_clean:
  assumes kd: "keeps_dict F" and sn: "stores_no_delayed F" and d: "distinct (map fst ns)"
    and nd: "\<forall>k x. map_of ns k \<noteq> Some (DelayedV x)"
    and r: "run_final_check F ns = Inr ns'"
  shows "distinct (map fst ns') \<and> (\<forall>k x. map_of ns' k \<noteq> Some (DelayedV x))"
proof -
  let ?v = "case map_of ns ''final_check'' of None \<Rightarrow> NoneV | Some v \<Rightarrow> v"
  have g: "getattr_None F ns ''final_check'' = (ns, Inr ?v)"
    using getattr_None_plain[of ns "''final_check''" F] nd by blast
  show ?thesis
  proof (cases "?v = NoneV")
    case True
    then have "ns' = ns" using r g by (simp add: run_final_check_def)
    then show ?thesis using d nd by simp
  next
    case False
    then obtain v where mv: "map_of ns ''final_check'' = Some v" "?v = v"
      by (cases "map_of ns ''final_check''") auto
    have vnd: "\<forall>x. v \<noteq> DelayedV x" using mv nd by auto
    let ?ns1 = "AList.delete ''final_check'' ns"
    have del: "delattr ns ''final_check'' = (?ns1, None)" using mv by (simp add: delattr_def)
    have r2: "(case call_value F v ?ns1 of (ns3, Some e) \<Rightarrow> Inl e | (ns3, None) \<Rightarrow> Inr ns3) = Inr ns'"
      using r g mv False del by (cases v) (simp_all add: run_final_check_def)
    obtain ns3 x where cv: "call_value F v ?ns1 = (ns3, x)" by (cases "call_value F v ?ns1")
    have "x = None" "ns3 = ns'" using r2 cv by (cases x; simp)+
    then have cv': "call_value F v ?ns1 = (ns', None)" using cv by simp
    have d1: "distinct (map fst ?ns1)" using d by (simp add: distinct_delete)
    from call_value_no_new[OF kd sn d1 vnd cv'] have
      a: "distinct (map fst ns')" and
      b: "\<forall>k x. map_of ns' k = Some (DelayedV x) \<longrightarrow> map_of ?ns1 k = Some (DelayedV x)" by blast+
    have "\<forall>k x. map_of ?ns1 k \<noteq> Some (DelayedV x)"
      using nd by (simp add: delete_conv)
    with a b show ?thesis by blast
  qed
qed

text \<open>
  Claim C1, as amended. If the callables keep the namespace a dictionary and store no
  new delayed value, and every delayed value on the namespace at the start of the
  resolution replaces or deletes its own attribute when it is called for it, then a
  namespace that \<open>parse_args\<close> returns holds no delayed value.
\<close>

theorem C1_no_delayed_after_parse:
  assumes kd: "keeps_dict F" and sn: "stores_no_delayed F"
    and pka: "parse_known_args args (case namespace of None \<Rightarrow> [] | Some ns \<Rightarrow> ns) = Inr (ns0, unknown_args)"
    and bind: "bind_subcommand F self ns0 = Inr ns1"
    and d1: "distinct (map fst ns1)"
    and ro: "resolves_own F ns1"
    and res: "parse_args F parse_known_args self args namespace = Inr result"
  shows "delayed_items (\<lambda>d. True) result = []"
proof -
  have rs: "resolve F self ns1 = Inr result"
    using res pka bind by (simp add: parse_args_def split: if_splits)
  obtain calls1 ns2 r1 where p1: "pass1 F ns1 = (calls1, ns2, r1)" by (cases "pass1 F ns1")
  have r1: "r1 = None" using rs p1 by (cases r1) (auto simp: resolve_def)
  obtain calls2 ns3 r2 where p2: "pass2 F ns2 = (calls2, ns3, r2)" by (cases "pass2 F ns2")
  have r2: "r2 = None" using rs p1 r1 p2 by (cases r2) (auto simp: resolve_def)
  have fc: "run_final_check F ns3 = Inr result"
    using rs p1 r1 p2 r2 by (simp add: resolve_def)
  have run1: "run_delayed F (sorted_by_priority (delayed_items is_DelayedDefault ns1)) ns1 = (calls1, ns2, None)"
    using p1 r1 by (simp add: pass1_def)
  from run_delayed_no_new[OF kd sn d1 run1] have d2: "distinct (map fst ns2)"
    and old: "\<forall>k x. map_of ns2 k = Some (DelayedV x) \<longrightarrow> map_of ns1 k = Some (DelayedV x)" by blast+
  let ?L = "sorted_by_priority (delayed_items (\<lambda>d. True) ns2)"
  have run2: "run_delayed F ?L ns2 = (calls2, ns3, None)" using p2 r2 by (simp add: pass2_def)
  have reg: "\<forall>c\<in>set ?L. map_of ns1 (fst c) = Some (DelayedV (snd c))"
  proof
    fix c assume "c \<in> set ?L"
    then have "(fst c, snd c) \<in> set (delayed_items (\<lambda>d. True) ns2)"
      by (simp add: set_sorted_by_priority)
    then have "map_of ns2 (fst c) = Some (DelayedV (snd c))"
      using delayed_items_map_of[OF d2] by blast
    then show "map_of ns1 (fst c) = Some (DelayedV (snd c))" using old by blast
  qed
  have inv: "\<forall>k x. map_of ns2 k = Some (DelayedV x) \<longrightarrow> (k, x) \<in> set ?L"
    using map_of_delayed_item by blast
  from run_delayed_resolves[OF kd sn ro d2 reg inv run2] have
    d3: "distinct (map fst ns3)" and nd3: "\<forall>k x. map_of ns3 k \<noteq> Some (DelayedV x)" by blast+
  from run_final_check_clean[OF kd sn d3 nd3 fc] have
    "distinct (map fst result)" "\<forall>k x. map_of result k \<noteq> Some (DelayedV x)" by blast+
  then show ?thesis by (rule no_delayed_items)
qed

lemma store_value_keeps_dict: "keeps_dict store_value"
  unfolding keeps_dict_def store_value_def
  by (auto simp: distinct_update split: list.splits pyarg.splits)

lemma store_value_stores_no_delayed: "stores_no_delayed store_value"
  unfolding stores_no_delayed_def store_value_def
  by (auto simp: update_conv' split: list.splits pyarg.splits if_splits)

lemma wipe_resolves: "wipe attrs ns attr = (ns', None) \<Longrightarrow> map_of ns' attr = None"
proof -
  assume "wipe attrs ns attr = (ns', None)"
  then have "ns' = filter (\<lambda>kv. fst kv \<notin> insert attr (set attrs)) ns"
    unfolding wipe_eq by simp
  then show ?thesis
    using map_of_filter_keys[of "insert attr (set attrs)" ns attr] by simp
qed

text \<open>
  A delayed default that stores a value, and a wipe: both are gone from the result.
\<close>

theorem C1_no_delayed_after_parse_witness:
  "parse_args store_value
     (with_defaults [(''x'', DelayedV (DelayedValue 0 1)),
                     (''y'', DelayedV (DelayedDefault_wipe [''z''] 0)),
                     (''z'', StrV ''zz'')])
     plain_parser [] None = Inr [(''x'', StrV ''v'')]
   \<and> delayed_items (\<lambda>d. True) [(''x'', StrV ''v'')] = []"
proof -
  let ?ns = "[(''x'', DelayedV (DelayedValue 0 1)),
              (''y'', DelayedV (DelayedDefault_wipe [''z''] 0)),
              (''z'', StrV ''zz'')]"
  have pka: "with_defaults ?ns [] (case None of None \<Rightarrow> [] | Some ns \<Rightarrow> ns) = Inr (?ns, [])"
    by (simp add: with_defaults_def)
  have bind: "bind_subcommand store_value plain_parser ?ns = Inr ?ns"
    by (simp add: bind_subcommand_def getattr_None_def subparsers_get_def)
  have d: "distinct (map fst ?ns)" by simp
  have ro: "resolves_own store_value ?ns"
    unfolding resolves_own_def
  proof (intro allI impI)
    fix attr d ns ns' d'
    assume m: "map_of ?ns attr = Some (DelayedV d)"
      and c: "call_delayed store_value d ns attr = (ns', None)"
    from m have "(attr = ''x'' \<and> d = DelayedValue 0 1)
               \<or> (attr = ''y'' \<and> d = DelayedDefault_wipe [''z''] 0)"
      by (simp split: if_splits)
    then show "map_of ns' attr \<noteq> Some (DelayedV d')"
    proof
      assume "attr = ''x'' \<and> d = DelayedValue 0 1"
      with c have "ns' = AList.update ''x'' (StrV ''v'') ns" by (simp add: store_value_def)
      then show ?thesis using \<open>attr = ''x'' \<and> d = DelayedValue 0 1\<close> by (simp add: update_conv')
    next
      assume "attr = ''y'' \<and> d = DelayedDefault_wipe [''z''] 0"
      with c have "wipe [''z''] ns attr = (ns', None)" by simp
      from wipe_resolves[OF this] show ?thesis by simp
    qed
  qed
  have res: "parse_args store_value (with_defaults ?ns) plain_parser [] None = Inr [(''x'', StrV ''v'')]"
    by (simp add: parse_args_def with_defaults_def bind_subcommand_def getattr_None_def
        subparsers_get_def resolve_def pass1_def pass2_def sorted_by_priority_def store_value_def
        run_final_check_def wipe_def delattr_def)
  from C1_no_delayed_after_parse[OF store_value_keeps_dict store_value_stores_no_delayed pka bind d ro res] res
  show ?thesis by (rule conjI[rotated])
qed

text \<open>
  Claim C1 as stated fails: a function bound as a delayed default that returns without
  storing anything leaves its \<open>DelayedValue\<close> on the namespace that \<open>parse_args\<close>
  returns, and a rescan finds it.
\<close>

theorem C1_unresolved_delayed_counterexample:
  "parse_args do_nothing (with_defaults [(''x'', DelayedV (DelayedValue 0 0))]) plain_parser [] None
     = Inr [(''x'', DelayedV (DelayedValue 0 0))]
   \<and> delayed_items (\<lambda>d. True) [(''x'', DelayedV (DelayedValue 0 0))]
     = [(''x'', DelayedValue 0 0)]"
  by (simp add: parse_args_def with_defaults_def bind_subcommand_def getattr_None_def
      subparsers_get_def resolve_def pass1_def pass2_def sorted_by_priority_def do_nothing_def
      run_final_check_def)

section \<open>The default subcommand\<close>

lemma skip_registered_first:
  "default_subparser self = Some d \<Longrightarrow> d \<in> set (map fst (subparsers self)) \<Longrightarrow>
   skip_subparser_fallback self (d # arg_strings)"
  by (simp add: skip_subparser_fallback_def)

text \<open>
  Claim C2, as amended. For a parser whose default subcommand \<open>d\<close> is registered, and
  an argument list that needs the fallback (no help flag, no subcommand name in front),
  \<open>_parse_known_args\<close> runs the parent parsers on the list and then the inherited
  parser on \<open>d\<close> followed by what the parents left over, in the namespace they left;
  with \<open>d\<close> written in front the inherited parser gets the whole list at once. The
  two agree when the parents consume nothing and leave the namespace as it is, in
  particular when the parser has no parents.
\<close>

theorem C2_default_subparser_fallback:
  assumes dflt: "default_subparser self = Some d"
    and reg: "d \<in> set (map fst (subparsers self))"
    and need: "\<not> skip_subparser_fallback self arg_strings"
  shows "p_parse_known_args repr super self arg_strings namespace =
           (case parse_parents (parents self) arg_strings namespace of
              Inl e \<Rightarrow> Inl e
            | Inr (namespace', arg_strings') \<Rightarrow> super (d # arg_strings') namespace')
       \<and> p_parse_known_args repr super self (d # arg_strings) namespace =
           super (d # arg_strings) namespace
       \<and> (parse_parents (parents self) arg_strings namespace = Inr (namespace, arg_strings) \<longrightarrow>
            p_parse_known_args repr super self arg_strings namespace =
            p_parse_known_args repr super self (d # arg_strings) namespace)
       \<and> (parents self = [] \<longrightarrow>
            p_parse_known_args repr super self arg_strings namespace =
            p_parse_known_args repr super self (d # arg_strings) namespace)"
proof -
  have a: "p_parse_known_args repr super self arg_strings namespace =
           (case parse_parents (parents self) arg_strings namespace of
              Inl e \<Rightarrow> Inl e
            | Inr (namespace', arg_strings') \<Rightarrow> super (d # arg_strings') namespace')"
    using dflt reg need by (simp add: p_parse_known_args_def)
  have b: "p_parse_known_args repr super self (d # arg_strings) namespace =
           super (d # arg_strings) namespace"
    using skip_registered_first[OF dflt reg] by (simp add: p_parse_known_args_def)
  have c: "parse_parents (parents self) arg_strings namespace = Inr (namespace, arg_strings) \<longrightarrow>
            p_parse_known_args repr super self arg_strings namespace =
            p_parse_known_args repr super self (d # arg_strings) namespace"
    unfolding a b by simp
  have e: "parents self = [] \<longrightarrow>
            p_parse_known_args repr super self arg_strings namespace =
            p_parse_known_args repr super self (d # arg_strings) namespace"
    unfolding a b by simp
  from a b c e show ?thesis by (intro conjI)
qed

text \<open>
  Default subcommand \<open>build\<close>, no parents: \<open>["--flag"]\<close> and \<open>["build", "--flag"]\<close>
  give the same result.
\<close>

theorem C2_default_subparser_fallback_witness:
  "p_parse_known_args quote_repr (command_parser [] [(''build'', [(''--flag'', ''flag'')])])
     (build_parser (Some ''build'') []) [''--flag''] []
     = Inr ([(''subcommand'', StrV ''build''), (''flag'', BoolV True)], [])
   \<and> p_parse_known_args quote_repr (command_parser [] [(''build'', [(''--flag'', ''flag'')])])
     (build_parser (Some ''build'') []) [''build'', ''--flag''] []
     = Inr ([(''subcommand'', StrV ''build''), (''flag'', BoolV True)], [])"
proof -
  let ?super = "command_parser [] [(''build'', [(''--flag'', ''flag'')])]"
  let ?p = "build_parser (Some ''build'') []"
  have dflt: "default_subparser ?p = Some ''build''" by (simp add: build_parser_def)
  have reg: "''build'' \<in> set (map fst (subparsers ?p))" by (simp add: build_parser_def)
  have need: "\<not> skip_subparser_fallback ?p [''--flag'']"
    by (simp add: skip_subparser_fallback_def build_parser_def)
  have np: "parents ?p = []" by (simp add: build_parser_def)
  have eq: "p_parse_known_args quote_repr ?super ?p [''--flag''] []
          = p_parse_known_args quote_repr ?super ?p [''build'', ''--flag''] []"
    using C2_default_subparser_fallback[OF dflt reg need, of quote_repr ?super "[]", THEN conjunct2, THEN conjunct2, THEN conjunct2] np
    by (rule mp)
  have r: "p_parse_known_args quote_repr ?super ?p [''build'', ''--flag''] []
          = Inr ([(''subcommand'', StrV ''build''), (''flag'', BoolV True)], [])"
    by (simp add: p_parse_known_args_def skip_subparser_fallback_def build_parser_def)
  from eq r show ?thesis by simp
qed

text \<open>
  Claim C2 as stated fails when a parent parser knows \<open>--flag\<close> and the subcommand
  \<open>build\<close> does not: for \<open>["--flag"]\<close> the parent binds the flag before \<open>build\<close> is
  put in front, for \<open>["build", "--flag"]\<close> the flag goes to the subcommand and comes
  back unrecognized.
\<close>

theorem C2_parent_consumes_flag_counterexample:
  "p_parse_known_args quote_repr (command_parser [(''--flag'', ''flag'')] [(''build'', [])])
     (build_parser (Some ''build'') [flag_parser [(''--flag'', ''flag'')]]) [''--flag''] []
     = Inr ([(''flag'', BoolV True), (''subcommand'', StrV ''build'')], [])
   \<and> p_parse_known_args quote_repr (command_parser [(''--flag'', ''flag'')] [(''build'', [])])
     (build_parser (Some ''build'') [flag_parser [(''--flag'', ''flag'')]]) [''build'', ''--flag''] []
     = Inr ([(''subcommand'', StrV ''build'')], [''--flag''])"
  by (simp add: p_parse_known_args_def skip_subparser_fallback_def build_parser_def)

text \<open>
  Claim C5, as amended. With a default subcommand that is not registered,
  \<open>add_subparsers\<close> stores the default without a check; \<open>_parse_known_args\<close> raises a
  \<open>ValueError\<close> to the caller, whatever the parent parsers and the inherited parser
  are (none of them is run), when the argument list needs the fallback; when it does not
  (a help flag, or a registered subcommand in front), nothing is raised and the list
  goes to the inherited parser as it is.
\<close>

theorem C5_unknown_default_checked_at_parse:
  assumes dflt: "default_subparser self = Some d"
    and unreg: "d \<notin> set (map fst (subparsers self))"
  shows "(\<not> skip_subparser_fallback self arg_strings \<longrightarrow>
            p_parse_known_args repr super self arg_strings namespace =
              Inl (ValueError (''unknown subparser '' @ repr d @ '' (available subparsers ''
                     @ join '', '' (sort (map fst (subparsers self))) @ '')'')))
       \<and> (skip_subparser_fallback self arg_strings \<longrightarrow>
            p_parse_known_args repr super self arg_strings namespace = super arg_strings namespace)
       \<and> default_subparser (add_subparsers (Some d) self) = Some d
       \<and> subparsers (add_subparsers (Some d) self) = subparsers self"
  using dflt unreg
  by (simp add: p_parse_known_args_def unknown_subparser_def add_subparsers_def)

text \<open>Default \<open>bogus\<close>, registered \<open>build\<close>: a list that needs the fallback and one that does not.\<close>

theorem C5_unknown_default_checked_at_parse_witness:
  "\<not> skip_subparser_fallback (build_parser (Some ''bogus'') []) [''--flag'']
   \<and> p_parse_known_args quote_repr (command_parser [] [(''build'', [(''--flag'', ''flag'')])])
       (build_parser (Some ''bogus'') []) [''--flag''] []
     = Inl (ValueError (''unknown subparser '' @ quote_repr ''bogus'' @ '' (available subparsers ''
                     @ join '', '' (sort [''build'']) @ '')''))
   \<and> skip_subparser_fallback (build_parser (Some ''bogus'') []) [''build'', ''--flag'']
   \<and> p_parse_known_args quote_repr (command_parser [] [(''build'', [(''--flag'', ''flag'')])])
       (build_parser (Some ''bogus'') []) [''build'', ''--flag''] []
     = command_parser [] [(''build'', [(''--flag'', ''flag'')])] [''build'', ''--flag''] []"
proof -
  let ?super = "command_parser [] [(''build'', [(''--flag'', ''flag'')])]"
  let ?p = "build_parser (Some ''bogus'') []"
  have dflt: "default_subparser ?p = Some ''bogus''" by (simp add: build_parser_def)
  have unreg: "''bogus'' \<notin> set (map fst (subparsers ?p))" by (simp add: build_parser_def)
  have need: "\<not> skip_subparser_fallback ?p [''--flag'']"
    by (simp add: skip_subparser_fallback_def build_parser_def)
  have skip: "skip_subparser_fallback ?p [''build'', ''--flag'']"
    by (simp add: skip_subparser_fallback_def build_parser_def)
  have names: "map fst (subparsers ?p) = [''build'']" by (simp add: build_parser_def)
  have r1: "p_parse_known_args quote_repr ?super ?p [''--flag''] []
     = Inl (ValueError (''unknown subparser '' @ quote_repr ''bogus'' @ '' (available subparsers ''
                     @ join '', '' (sort (map fst (subparsers ?p))) @ '')''))"
    using C5_unknown_default_checked_at_parse[OF dflt unreg, of "[''--flag'']" quote_repr ?super "[]", THEN conjunct1] need
    by (rule mp)
  have r2: "p_parse_known_args quote_repr ?super ?p [''build'', ''--flag''] []
     = ?super [''build'', ''--flag''] []"
    using C5_unknown_default_checked_at_parse[OF dflt unreg, of "[''build'', ''--flag'']" quote_repr ?super "[]",
        THEN conjunct2, THEN conjunct1] skip
    by (rule mp)
  from need r1[unfolded names] skip r2 show ?thesis by (intro conjI)
qed

text \<open>
  Claim C5 as stated fails: \<open>add_subparsers(default="bogus")\<close> returns the parser with
  the default stored although only \<open>build\<close> is registered, and parsing
  \<open>["build", "--flag"]\<close> with that parser returns normally.
\<close>

theorem C5_no_setup_check_counterexample:
  "add_subparsers (Some ''bogus'') (build_parser None [])
     = (build_parser None [])\<lparr>default_subparser := Some ''bogus'', has_subparsers := True\<rparr>
   \<and> ''bogus'' \<notin> set (map fst (subparsers (add_subparsers (Some ''bogus'') (build_parser None []))))
   \<and> p_parse_known_args quote_repr (command_parser [] [(''build'', [(''--flag'', ''flag'')])])
       (add_subparsers (Some ''bogus'') (build_parser None [])) [''build'', ''--flag''] []
     = Inr ([(''subcommand'', StrV ''build''), (''flag'', BoolV True)], [])"
  by (simp add: add_subparsers_def build_parser_def p_parse_known_args_def
      skip_subparser_fallback_def)

end
